theory Spec2Isabelle
  imports Main "HOL-Library.Finite_Map"
begin

section \<open>The download manager \<open>util/model.py\<close>\<close>

text \<open>
  A shallow embedding of \<^verbatim>\<open>src/util/model.py\<close>. Python dictionaries loaded from
  JSON are finite maps, \<^verbatim>\<open>sys.exit(msg)\<close> and raised exceptions are values of
  \<open>error\<close> on the left of a sum, and the sets and lists that the nested function
  \<^verbatim>\<open>expand\<close> mutates are the fields of a state record that is passed along.
  The disk, the console and the requests issued are the fields of a record \<open>world\<close>
  that every operation takes and returns; a function that can fail returns the
  world it leaves behind next to its error. The standard library
  (\<^verbatim>\<open>urllib\<close>, \<^verbatim>\<open>pathlib\<close>, \<^verbatim>\<open>zipfile\<close>, \<^verbatim>\<open>int\<close>) and the remote server are
  the fields of a record \<open>env\<close>, a parameter of the functions that call them.
  The thread pool of lines 227 to 230 is not modelled: \<open>cmd_dl\<close> ends with the
  tasks it submits.
\<close>

subsection \<open>Errors and the index\<close>

datatype error =
  SystemExit string
  | ValueError
  | URLError
  | OSError
  | IndexError

record model_entry =
  entry_url :: string
  entry_subdirectory :: string
  entry_unzip :: "bool option"

record index =
  models :: "(string, model_entry) fmap"
  groups :: "(string, string list) fmap"

subsection \<open>Group expansion (\<^verbatim>\<open>expand_names\<close>, lines 69 to 96)\<close>

definition apostrophe :: char where
  "apostrophe = CHR 0x27"

text \<open>The message of line 76: \<^verbatim>\<open>f"Error: cyclic group reference detected at '{name}'"\<close>.\<close>

definition cycle_msg :: "string \<Rightarrow> string" where
  "cycle_msg name =
     ''Error: cyclic group reference detected at '' @ [apostrophe] @ name @ [apostrophe]"

text \<open>\<^verbatim>\<open>' '.join(members)\<close>.\<close>

fun join_space :: "string list \<Rightarrow> string" where
  "join_space [] = []"
| "join_space [m] = m"
| "join_space (m # ms) = m @ '' '' @ join_space ms"

text \<open>The line printed at line 80.\<close>

definition group_msg :: "string \<Rightarrow> string list \<Rightarrow> string" where
  "group_msg name members =
     ''Group '' @ [apostrophe] @ name @ [apostrophe] @ '' expanded to: '' @ join_space members"

text \<open>
  The variables that the closure \<^verbatim>\<open>expand\<close> captures and mutates: the set
  \<^verbatim>\<open>visiting\<close>, the list \<^verbatim>\<open>expanded\<close>, and the lines it prints.
\<close>

record xstate =
  visiting :: "string set"
  expanded :: "string list"
  printed :: "string list"

text \<open>
  \<open>expand\<close> is the nested function of lines 74 to 85, \<open>expand_members\<close> the loop
  \<^verbatim>\<open>for m in members: expand(m)\<close> of lines 81 and 82 (and of lines 87 and 88).
  \<^verbatim>\<open>sys.exit\<close> leaves every enclosing loop, so an error of a member is the
  error of the whole call. \<^verbatim>\<open>visiting.remove(name)\<close> at line 83 finds the name it
  removes (lemma \<open>expand_visiting\<close>: the members leave the set as they found it),
  so it is the removal from the set and no \<^verbatim>\<open>KeyError\<close>.
\<close>

function expand :: "(string, string list) fmap \<Rightarrow> string \<Rightarrow> xstate \<Rightarrow> error + xstate"
  and expand_members :: "(string, string list) fmap \<Rightarrow> string list \<Rightarrow> xstate \<Rightarrow> error + xstate"
where
  "expand gs name st =
     (if name \<in> visiting st then Inl (SystemExit (cycle_msg name))
      else case fmlookup gs name of
        Some members \<Rightarrow>
          (case expand_members gs members
                  (st\<lparr>visiting := insert name (visiting st),
                      printed := printed st @ [group_msg name members]\<rparr>) of
             Inl e \<Rightarrow> Inl e
           | Inr st' \<Rightarrow> Inr (st'\<lparr>visiting := visiting st' - {name}\<rparr>))
      | None \<Rightarrow> Inr (st\<lparr>expanded := expanded st @ [name]\<rparr>))"
| "expand_members gs [] st = Inr st"
| "expand_members gs (m # ms) st =
     (case expand gs m st of
        Inl e \<Rightarrow> Inl e
      | Inr st' \<Rightarrow> expand_members gs ms st')"
  by pat_completeness auto

text \<open>
  Termination needs a fact about the function itself: a call that returns has
  restored \<^verbatim>\<open>visiting\<close>, so the members after the first are expanded under the
  same set. It is proved on the domain of the function first.
\<close>

lemma expand_visiting_dom:
  "expand_expand_members_dom (Inl (gs, name, st)) \<Longrightarrow>
     expand gs name st = Inr st' \<Longrightarrow> visiting st' = visiting st"
  "expand_expand_members_dom (Inr (gs, ms, st)) \<Longrightarrow>
     expand_members gs ms st = Inr st' \<Longrightarrow> visiting st' = visiting st"
proof (induction gs name st and gs ms st arbitrary: st' and st' rule: expand_expand_members.pinduct)
  case (1 gs name st)
  note eq = "1.prems" [unfolded expand.psimps [OF "1.hyps"]]
  show ?case
  proof (cases "fmlookup gs name")
    case None
    with eq show ?thesis by (auto split: if_splits)
  next
    case (Some members)
    from eq have nv: "name \<notin> visiting st" by (auto split: if_splits)
    from eq nv Some obtain st1 where
      r: "expand_members gs members
            (st\<lparr>visiting := insert name (visiting st),
                printed := printed st @ [group_msg name members]\<rparr>) = Inr st1"
      and st': "st' = st1\<lparr>visiting := visiting st1 - {name}\<rparr>"
      by (auto split: sum.splits)
    from "1.IH" [OF nv Some r] have "visiting st1 = insert name (visiting st)" by simp
    with st' nv show ?thesis by auto
  qed
next
  case (2 gs st)
  then show ?case by (simp add: expand_members.psimps)
next
  case (3 gs m ms st)
  note eq = "3.prems" [unfolded expand_members.psimps(2) [OF "3.hyps"]]
  from eq obtain st1 where r: "expand gs m st = Inr st1"
    and r': "expand_members gs ms st1 = Inr st'"
    by (auto split: sum.splits)
  from "3.IH"(1) [OF r] "3.IH"(2) [OF r r'] show ?case by simp
qed

lemma card_unvisited_less:
  assumes "name \<notin> V" and "fmlookup gs name = Some members"
  shows "card (fmdom' gs - insert name V) < card (fmdom' gs - V)"
proof -
  have "name \<in> fmdom' gs - V"
    using assms by (simp add: fmdom'I)
  moreover have "fmdom' gs - insert name V = (fmdom' gs - V) - {name}"
    by auto
  moreover have "finite (fmdom' gs - V)" by simp
  ultimately show ?thesis
    using card_Diff1_less [of "fmdom' gs - V" name] by simp
qed

termination expand
proof (relation "measures [\<lambda>x. case x of
                      Inl (gs, name, st) \<Rightarrow> card (fmdom' gs - visiting st)
                    | Inr (gs, ms, st) \<Rightarrow> card (fmdom' gs - visiting st),
                   \<lambda>x. case x of Inl _ \<Rightarrow> 0 | Inr (gs, ms, st) \<Rightarrow> Suc (length ms)]", goal_cases)
  case 1
  show ?case by simp
next
  case (2 name st gs members)
  then show ?case by (simp add: card_unvisited_less)
next
  case (3 gs m ms st)
  show ?case by simp
next
  case (4 gs m ms st st')
  from expand_visiting_dom(1) [OF "4"(2) "4"(1)] have "visiting st' = visiting st" .
  then show ?case by simp
qed

text \<open>The deduplication loop of lines 91 to 95, with \<^verbatim>\<open>seen\<close> and \<^verbatim>\<open>result\<close> as arguments.\<close>

fun dedup :: "string list \<Rightarrow> string set \<Rightarrow> string list \<Rightarrow> string list" where
  "dedup [] seen result = result"
| "dedup (n # ns) seen result =
     (if n \<notin> seen then dedup ns (insert n seen) (result @ [n]) else dedup ns seen result)"

text \<open>
  \<open>expand_names\<close> (lines 69 to 96): the three variables start empty, the loop of
  lines 87 and 88 expands every requested name, and the leaves collected are
  deduplicated. The value is the returned list, or the \<^verbatim>\<open>SystemExit\<close> that
  left the function.
\<close>

definition expand_names :: "index \<Rightarrow> string list \<Rightarrow> error + string list" where
  "expand_names idx names =
     (case expand_members (groups idx) names \<lparr>visiting = {}, expanded = [], printed = []\<rparr> of
        Inl e \<Rightarrow> Inl e
      | Inr st \<Rightarrow> Inr (dedup (expanded st) {} []))"

subsection \<open>What the specification says of an expansion\<close>

text \<open>
  A group refers to each of its members. A name is on a cycle when it reaches itself
  through one reference or more; a request reaches a cycle when one of the requested
  names reaches, through any number of references, a name that is on a cycle.
\<close>

definition group_refs :: "(string, string list) fmap \<Rightarrow> (string \<times> string) set" where
  "group_refs gs = {(g, m). \<exists>ms. fmlookup gs g = Some ms \<and> m \<in> set ms}"

definition reaches_cycle :: "(string, string list) fmap \<Rightarrow> string list \<Rightarrow> string \<Rightarrow> bool" where
  "reaches_cycle gs names c \<longleftrightarrow>
     (\<exists>r\<in>set names. (r, c) \<in> (group_refs gs)\<^sup>*) \<and> (c, c) \<in> (group_refs gs)\<^sup>+"

text \<open>
  The depth-first, left-to-right traversal of section 3: a name that is no group
  is a leaf, a group yields the leaves of its members in their order.
\<close>

inductive dfs_leaves :: "(string, string list) fmap \<Rightarrow> string \<Rightarrow> string list \<Rightarrow> bool"
  and dfs_leaves_list :: "(string, string list) fmap \<Rightarrow> string list \<Rightarrow> string list \<Rightarrow> bool"
  for gs :: "(string, string list) fmap"
where
  leaf: "fmlookup gs n = None \<Longrightarrow> dfs_leaves gs n [n]"
| group: "fmlookup gs n = Some ms \<Longrightarrow> dfs_leaves_list gs ms xs \<Longrightarrow> dfs_leaves gs n xs"
| nil: "dfs_leaves_list gs [] []"
| cons: "dfs_leaves gs m xs \<Longrightarrow> dfs_leaves_list gs ms ys \<Longrightarrow> dfs_leaves_list gs (m # ms) (xs @ ys)"

text \<open>Every element once, at the place of its first appearance.\<close>

primrec first_occurrences :: "'a list \<Rightarrow> 'a list" where
  "first_occurrences [] = []"
| "first_occurrences (x # xs) = x # filter (\<lambda>y. y \<noteq> x) (first_occurrences xs)"

text \<open>
  The name at which a cycle closes, in the words of section 4.1: the names are
  expanded in order, each group through its members, with the names being
  expanded kept as the current path; a name met while it is on the path closes
  the cycle, and the expansion stops there. \<open>completes gs path n\<close> says
  that \<open>n\<close> is expanded to the end under \<open>path\<close>, \<open>closes gs path n c\<close> that its
  expansion stops at \<open>c\<close>.
\<close>

inductive completes :: "(string, string list) fmap \<Rightarrow> string list \<Rightarrow> string \<Rightarrow> bool"
  and completes_all :: "(string, string list) fmap \<Rightarrow> string list \<Rightarrow> string list \<Rightarrow> bool"
  for gs :: "(string, string list) fmap"
where
  done_leaf: "n \<notin> set path \<Longrightarrow> fmlookup gs n = None \<Longrightarrow> completes gs path n"
| done_group: "n \<notin> set path \<Longrightarrow> fmlookup gs n = Some ms \<Longrightarrow> completes_all gs (n # path) ms \<Longrightarrow>
     completes gs path n"
| done_nil: "completes_all gs path []"
| done_cons: "completes gs path m \<Longrightarrow> completes_all gs path ms \<Longrightarrow> completes_all gs path (m # ms)"

inductive closes :: "(string, string list) fmap \<Rightarrow> string list \<Rightarrow> string \<Rightarrow> string \<Rightarrow> bool"
  and closes_in :: "(string, string list) fmap \<Rightarrow> string list \<Rightarrow> string list \<Rightarrow> string \<Rightarrow> bool"
  for gs :: "(string, string list) fmap"
where
  reenter: "n \<in> set path \<Longrightarrow> closes gs path n n"
| below: "n \<notin> set path \<Longrightarrow> fmlookup gs n = Some ms \<Longrightarrow> closes_in gs (n # path) ms c \<Longrightarrow>
     closes gs path n c"
| first: "closes gs path m c \<Longrightarrow> closes_in gs path (m # ms) c"
| later: "completes gs path m \<Longrightarrow> closes_in gs path ms c \<Longrightarrow> closes_in gs path (m # ms) c"

text \<open>The indexes of section 8 of the specification, and a cycle below its entry.\<close>

definition example_index :: index where
  "example_index =
     \<lparr>models = fmempty,
      groups = fmap_of_list [(''g'', [''a'', ''h'']), (''h'', [''b'', ''a''])]\<rparr>"

definition cyclic_index :: index where
  "cyclic_index =
     \<lparr>models = fmempty,
      groups = fmap_of_list [(''x'', [''y'']), (''y'', [''x''])]\<rparr>"

definition nested_index :: index where
  "nested_index =
     \<lparr>models = fmempty,
      groups = fmap_of_list [(''x'', [''y'']), (''y'', [''z'']), (''z'', [''y''])]\<rparr>"

subsection \<open>Strings\<close>

text \<open>
  Strings are lists of 8-bit characters, the code points of the Latin-1 text that
  \<^verbatim>\<open>http.client\<close> decodes header values to. \<open>lower_char\<close> lowers the letters A to Z
  only: \<^verbatim>\<open>str.lower\<close> maps no character beyond ASCII to an ASCII letter, so the test
  \<^verbatim>\<open>part.lower().startswith("filename=")\<close> of line 56 is the same. \<open>is_space\<close> holds
  the Latin-1 characters that \<^verbatim>\<open>str.strip()\<close> removes; \<open>strip_chars\<close> is
  \<^verbatim>\<open>str.strip\<close>, \<open>split_on\<close> is \<^verbatim>\<open>str.split(sep)\<close> and \<open>split_once\<close> is
  \<^verbatim>\<open>str.split(sep, 1)\<close> for a separator of one character, \<open>basename\<close> is
  \<^verbatim>\<open>os.path.basename\<close> (what follows the last slash).
\<close>

definition dquote :: char where
  "dquote = CHR 0x22"

definition lower_char :: "char \<Rightarrow> char" where
  "lower_char c =
     (case map_of (zip ''ABCDEFGHIJKLMNOPQRSTUVWXYZ'' ''abcdefghijklmnopqrstuvwxyz'') c of
        Some l \<Rightarrow> l
      | None \<Rightarrow> c)"

definition lower :: "string \<Rightarrow> string" where
  "lower s = map lower_char s"

definition is_space :: "char \<Rightarrow> bool" where
  "is_space c \<longleftrightarrow>
     c \<in> set [CHR 0x09, CHR 0x0A, CHR 0x0B, CHR 0x0C, CHR 0x0D, CHR 0x1C, CHR 0x1D, CHR 0x1E,
               CHR 0x1F, CHR 0x20, CHR 0x85, CHR 0xA0]"

definition strip_chars :: "(char \<Rightarrow> bool) \<Rightarrow> string \<Rightarrow> string" where
  "strip_chars P s = rev (dropWhile P (rev (dropWhile P s)))"

definition startswith :: "string \<Rightarrow> string \<Rightarrow> bool" where
  "startswith s p \<longleftrightarrow> take (length p) s = p"

fun split_on :: "char \<Rightarrow> string \<Rightarrow> string list" where
  "split_on sep [] = [[]]"
| "split_on sep (c # cs) =
     (if c = sep then [] # split_on sep cs
      else (case split_on sep cs of
              [] \<Rightarrow> [[c]]
            | p # ps \<Rightarrow> (c # p) # ps))"

definition split_once :: "char \<Rightarrow> string \<Rightarrow> string list" where
  "split_once sep s =
     (if sep \<in> set s
      then [takeWhile (\<lambda>c. c \<noteq> sep) s, drop 1 (dropWhile (\<lambda>c. c \<noteq> sep) s)]
      else [s])"

definition basename :: "string \<Rightarrow> string" where
  "basename p = rev (takeWhile (\<lambda>c. c \<noteq> CHR ''/'') (rev p))"


subsection \<open>The network and the file system\<close>

text \<open>
  A response has its headers, the bytes of its body, and the exception that
  \<^verbatim>\<open>read\<close> raises once these bytes are delivered, if the stream breaks. A request
  is what \<^verbatim>\<open>urllib.request.Request\<close> keeps: the URL, the headers that follow a
  redirect and the headers that do not (\<^verbatim>\<open>add_unredirected_header\<close>).
\<close>

record response =
  headers :: "(string \<times> string) list"
  body :: string
  fault :: "error option"

record request =
  full_url :: string
  redirected_hdrs :: "(string \<times> string) list"
  unredirected_hdrs :: "(string \<times> string) list"

text \<open>
  What the code calls and the repository does not define: the host name and the
  path that \<^verbatim>\<open>urllib.parse.urlparse\<close> finds in a URL; the type (scheme) that
  \<^verbatim>\<open>urllib.request.Request\<close> finds in it, \<open>None\<close> where the constructor raises
  \<^verbatim>\<open>ValueError\<close> (unknown url type); \<^verbatim>\<open>urlopen\<close> (the server's answer or the
  exception); the join \<^verbatim>\<open>/\<close> of \<^verbatim>\<open>pathlib\<close> and the directories above a path, the
  nearest first, without the root and the working directory, which exist;
  \<^verbatim>\<open>int\<close> on a string (\<open>None\<close> for \<^verbatim>\<open>ValueError\<close>); \<^verbatim>\<open>zipfile.is_zipfile\<close> on
  the bytes of a file; and the files that \<^verbatim>\<open>ZipFile(target).extractall(directory)\<close>
  writes, in order, with the exception it raises after them, if any. The last is
  given the path of the archive with its bytes: the library reads the archive
  while it writes, so an entry stored at the archive's own path changes what it
  does.
\<close>

record env =
  url_hostname :: "string \<Rightarrow> string option"
  url_path :: "string \<Rightarrow> string"
  url_type :: "string \<Rightarrow> string option"
  urlopen :: "request \<Rightarrow> error + response"
  joinpath :: "string \<Rightarrow> string \<Rightarrow> string"
  path_parents :: "string \<Rightarrow> string list"
  py_int :: "string \<Rightarrow> int option"
  is_zipfile :: "string \<Rightarrow> bool"
  zip_extractall :: "string \<Rightarrow> string \<Rightarrow> string \<Rightarrow> (string \<times> string) list \<times> error option"

text \<open>
  The disk maps a path to a regular file with its bytes or to a directory. The two
  JSON documents are kept apart from it, parsed: \<open>None\<close> is a file that does not
  exist. The console holds one value per line printed, named after the print
  statement it stands for (lines 116, 133 and 135, 138, 143, 146, 151); the
  numbers of a progress line are kept, not their formatting. Faults of the
  operating system that the state here does not decide (permissions, a full
  disk) are outside the model.
\<close>

datatype node = File string | Dir

datatype line =
  Skipping string string
  | Progress string nat "int option"
  | Done string string
  | NotAZip string string
  | Unzipping string string
  | Unzipped string string

record world =
  fs :: "string \<rightharpoonup> node"
  tokens_file :: "(string, string) fmap option"
  index_file :: "index option"
  stdout :: "line list"
  stderr :: "line list"
  requested :: "request list"

definition CHUNK_SIZE :: nat where
  "CHUNK_SIZE = 1024 * 64"



definition load_tokens :: "world \<Rightarrow> (string, string) fmap" where
  "load_tokens w =
     (case tokens_file w of
        None \<Rightarrow> fmempty
      | Some data \<Rightarrow> data)"

text \<open>
  \<open>ensure_parent_dir\<close> (lines 48 and 49): \<^verbatim>\<open>mkdir(parents=True, exist_ok=True)\<close>
  makes the directory and every directory above it that is missing; it fails
  where the path or a directory above it is a regular file
  (\<^verbatim>\<open>FileExistsError\<close>, \<^verbatim>\<open>NotADirectoryError\<close>).
\<close>

definition is_file :: "node option \<Rightarrow> bool" where
  "is_file x = (case x of Some (File c) \<Rightarrow> True | _ \<Rightarrow> False)"

definition put_dir :: "string \<Rightarrow> (string \<rightharpoonup> node) \<Rightarrow> (string \<rightharpoonup> node)" where
  "put_dir p f = f(p \<mapsto> Dir)"

definition ensure_parent_dir :: "env \<Rightarrow> string \<Rightarrow> world \<Rightarrow> error + world" where
  "ensure_parent_dir env path w =
     (if list_ex (\<lambda>p. is_file (fs w p)) (path # path_parents env path) then Inl OSError
      else Inr (w\<lparr>fs := fold put_dir (path # path_parents env path) (fs w)\<rparr>))"

text \<open>
  \<^verbatim>\<open>response.headers.get(name)\<close> compares header names in any letter case.
  \<open>filename_param\<close> is the loop of lines 54 to 57; the index \<^verbatim>\<open>[1]\<close> of line 57
  raises \<^verbatim>\<open>IndexError\<close> on a list of one element. \<open>get_filename_from_response\<close> is
  lines 51 to 59.
\<close>

definition header_get :: "(string \<times> string) list \<Rightarrow> string \<Rightarrow> string option" where
  "header_get hs name = map_of (map (\<lambda>(k, v). (lower k, v)) hs) (lower name)"

fun filename_param :: "string list \<Rightarrow> (error + string) option" where
  "filename_param [] = None"
| "filename_param (part # parts) =
     (let part = strip_chars is_space part in
      if startswith (lower part) ''filename=''
      then (case split_once (CHR ''='') part of
              [a, b] \<Rightarrow> Some (Inr (strip_chars (\<lambda>c. c = dquote) b))
            | _ \<Rightarrow> Some (Inl IndexError))
      else filename_param parts)"

definition get_filename_from_response :: "env \<Rightarrow> response \<Rightarrow> string \<Rightarrow> error + string" where
  "get_filename_from_response env response u =
     (case (case header_get (headers response) ''Content-Disposition'' of
              Some cd \<Rightarrow> if cd \<noteq> [] then filename_param (split_on (CHR '';'') cd) else None
            | None \<Rightarrow> None) of
        Some r \<Rightarrow> r
      | None \<Rightarrow>
          (let b = basename (url_path env u)
           in Inr (if b \<noteq> [] then b else ''downloaded.file'')))"

text \<open>
  \<open>make_request\<close>: lines 101 to 106, the request that line 110 opens.
  \<^verbatim>\<open>Request(url)\<close> at line 104 raises \<^verbatim>\<open>ValueError\<close> on a URL in which it finds no
  type.
\<close>

definition make_request :: "env \<Rightarrow> (string, string) fmap \<Rightarrow> string \<Rightarrow> error + request" where
  "make_request env tokens u =
     (case url_type env u of
        None \<Rightarrow> Inl ValueError
      | Some t \<Rightarrow>
          (let req = \<lparr>full_url = u, redirected_hdrs = [], unredirected_hdrs = []\<rparr>
           in Inr (case url_hostname env u of
                     None \<Rightarrow> req
                   | Some hostname \<Rightarrow>
                       (if hostname \<noteq> [] then
                          (case fmlookup tokens hostname of
                             Some token \<Rightarrow>
                               req\<lparr>unredirected_hdrs :=
                                     unredirected_hdrs req
                                       @ [(''Authorization'', ''Bearer '' @ token)]\<rparr>
                           | None \<Rightarrow> req)
                        else req))))"

text \<open>
  Lines 119 and 120, the opening of the target (line 123), one \<^verbatim>\<open>out.write(chunk)\<close>
  (line 128), the progress line of lines 131 to 135, and the loop of lines 124
  to 135 over the bytes that are left. \<^verbatim>\<open>open(target, "wb")\<close> empties a file that
  exists, fails on a directory (\<^verbatim>\<open>IsADirectoryError\<close>), and makes a new file only
  where every directory above it exists (\<^verbatim>\<open>FileNotFoundError\<close>,
  \<^verbatim>\<open>NotADirectoryError\<close> otherwise).
\<close>

definition content_length :: "env \<Rightarrow> response \<Rightarrow> error + int option" where
  "content_length env response =
     (case header_get (headers response) ''Content-Length'' of
        None \<Rightarrow> Inr None
      | Some total_len \<Rightarrow>
          (if total_len \<noteq> [] then
             (case py_int env total_len of
                None \<Rightarrow> Inl ValueError
              | Some n \<Rightarrow> Inr (Some n))
           else Inr None))"

definition open_wb :: "env \<Rightarrow> string \<Rightarrow> world \<Rightarrow> error + world" where
  "open_wb env target w =
     (case fs w target of
        Some Dir \<Rightarrow> Inl OSError
      | Some (File c) \<Rightarrow> Inr (w\<lparr>fs := (fs w)(target \<mapsto> File [])\<rparr>)
      | None \<Rightarrow>
          (if list_all (\<lambda>p. fs w p = Some Dir) (path_parents env target)
           then Inr (w\<lparr>fs := (fs w)(target \<mapsto> File [])\<rparr>)
           else Inl OSError))"

definition write_chunk :: "string \<Rightarrow> string \<Rightarrow> world \<Rightarrow> world" where
  "write_chunk target chunk w =
     w\<lparr>fs := (fs w)(target \<mapsto> File (case fs w target of Some (File c) \<Rightarrow> c @ chunk | _ \<Rightarrow> chunk))\<rparr>"

definition progress :: "string \<Rightarrow> nat \<Rightarrow> int option \<Rightarrow> line" where
  "progress name downloaded total_len =
     Progress name downloaded
       (case total_len of None \<Rightarrow> None | Some t \<Rightarrow> if t \<noteq> 0 then Some t else None)"

function read_loop ::
  "string \<Rightarrow> int option \<Rightarrow> string \<Rightarrow> error option \<Rightarrow> string \<Rightarrow> nat \<Rightarrow> world \<Rightarrow> error option \<times> world"
where
  "read_loop name total_len target flt rest downloaded w =
     (let chunk = take CHUNK_SIZE rest in
      if chunk = [] then (flt, w)
      else read_loop name total_len target flt (drop CHUNK_SIZE rest) (downloaded + length chunk)
             ((write_chunk target chunk w)
                \<lparr>stdout := stdout w @ [progress name (downloaded + length chunk) total_len]\<rparr>))"
  by pat_completeness auto
termination read_loop
  by (relation "measure (\<lambda>(name, total_len, target, flt, rest, downloaded, w). length rest)")
    (auto simp: CHUNK_SIZE_def)


text \<open>
  \<^verbatim>\<open>zipfile.is_zipfile(target)\<close>, \<^verbatim>\<open>extractall\<close> and \<^verbatim>\<open>target.unlink()\<close> on the disk
  (lines 142, 147 to 149).
\<close>

definition path_is_zipfile :: "env \<Rightarrow> string \<Rightarrow> world \<Rightarrow> bool" where
  "path_is_zipfile env target w =
     (case fs w target of
        Some (File c) \<Rightarrow> is_zipfile env c
      | _ \<Rightarrow> False)"

definition put_file :: "string \<times> string \<Rightarrow> (string \<rightharpoonup> node) \<Rightarrow> (string \<rightharpoonup> node)" where
  "put_file entry f = f(fst entry \<mapsto> File (snd entry))"

definition write_entries :: "(string \<times> string) list \<Rightarrow> world \<Rightarrow> world" where
  "write_entries entries w = w\<lparr>fs := fold put_file entries (fs w)\<rparr>"

definition extractall :: "env \<Rightarrow> string \<Rightarrow> string \<Rightarrow> world \<Rightarrow> error option \<times> world" where
  "extractall env target subdirectory w =
     (case fs w target of
        Some (File c) \<Rightarrow>
          (case zip_extractall env target c subdirectory of
             (entries, e) \<Rightarrow> (e, write_entries entries w))
      | _ \<Rightarrow> (Some OSError, w))"

definition unlink :: "string \<Rightarrow> world \<Rightarrow> error + world" where
  "unlink target w =
     (case fs w target of
        Some (File c) \<Rightarrow> Inr (w\<lparr>fs := (fs w)(target := None)\<rparr>)
      | _ \<Rightarrow> Inl OSError)"

text \<open>
  \<open>fetch\<close> is the \<^verbatim>\<open>with\<close> block of lines 110 to 138: it returns at line 117
  (\<open>Skipped\<close>) or falls through to line 141 (\<open>Downloaded\<close>). \<open>unzip_in_place\<close> is
  lines 142 to 153 and \<open>download_file\<close> the whole function, lines 99 to 153.
\<close>

datatype fetched = Skipped string | Downloaded string

definition fetch ::
  "env \<Rightarrow> string \<Rightarrow> string \<Rightarrow> string \<Rightarrow> bool \<Rightarrow> response \<Rightarrow> world \<Rightarrow> (error + fetched) \<times> world"
where
  "fetch env name url subdirectory force response w =
     (case get_filename_from_response env response url of
        Inl e \<Rightarrow> (Inl e, w)
      | Inr filename \<Rightarrow>
          (let target = joinpath env subdirectory filename in
           if fs w target \<noteq> None \<and> \<not> force
           then (Inr (Skipped target), w\<lparr>stdout := stdout w @ [Skipping name target]\<rparr>)
           else
             (case content_length env response of
                Inl e \<Rightarrow> (Inl e, w)
              | Inr total_len \<Rightarrow>
                  (case open_wb env target w of
                     Inl e \<Rightarrow> (Inl e, w)
                   | Inr w1 \<Rightarrow>
                       (case read_loop name total_len target (fault response) (body response) 0 w1 of
                          (Some e, w2) \<Rightarrow> (Inl e, w2)
                        | (None, w2) \<Rightarrow>
                            (Inr (Downloaded target),
                             w2\<lparr>stdout := stdout w2 @ [Done name target]\<rparr>))))))"

definition unzip_in_place ::
  "env \<Rightarrow> string \<Rightarrow> string \<Rightarrow> string \<Rightarrow> world \<Rightarrow> (error + string) \<times> world"
where
  "unzip_in_place env name subdirectory target w =
     (if \<not> path_is_zipfile env target w
      then (Inr target, w\<lparr>stderr := stderr w @ [NotAZip name target]\<rparr>)
      else
        (case extractall env target subdirectory
                (w\<lparr>stdout := stdout w @ [Unzipping name target]\<rparr>) of
           (Some e, w1) \<Rightarrow> (Inl e, w1)
         | (None, w1) \<Rightarrow>
             (case unlink target w1 of
                Inl e \<Rightarrow> (Inl e, w1)
              | Inr w2 \<Rightarrow> (Inr target, w2\<lparr>stdout := stdout w2 @ [Unzipped name target]\<rparr>))))"

definition download_file ::
  "env \<Rightarrow> string \<Rightarrow> string \<Rightarrow> string \<Rightarrow> bool \<Rightarrow> bool \<Rightarrow> world \<Rightarrow> (error + string) \<times> world"
where
  "download_file env name url subdirectory force unzip w =
     (let tokens = load_tokens w
      in case make_request env tokens url of
           Inl e \<Rightarrow> (Inl e, w)
         | Inr req \<Rightarrow>
             (case ensure_parent_dir env subdirectory w of
                Inl e \<Rightarrow> (Inl e, w)
              | Inr w1 \<Rightarrow>
                  (let w2 = w1\<lparr>requested := requested w1 @ [req]\<rparr>
                   in case urlopen env req of
                        Inl e \<Rightarrow> (Inl e, w2)
                      | Inr response \<Rightarrow>
                          (case fetch env name url subdirectory force response w2 of
                             (Inl e, w3) \<Rightarrow> (Inl e, w3)
                           | (Inr (Skipped target), w3) \<Rightarrow> (Inr target, w3)
                           | (Inr (Downloaded target), w3) \<Rightarrow>
                               (if unzip then unzip_in_place env name subdirectory target w3
                                else (Inr target, w3))))))"

subsection \<open>The command \<^verbatim>\<open>dl\<close>\<close>









subsection \<open>What the specification says of the file name\<close>

text \<open>
  The \<^verbatim>\<open>filename=\<close> parameter of the \<^verbatim>\<open>Content-Disposition\<close> header: the first of
  the parts between semicolons that, blanks trimmed, begins with \<^verbatim>\<open>filename=\<close> in
  any letter case; its value is what follows these nine characters, without the
  quotes around it. The last path segment is what follows the last slash.
\<close>

definition cd_filename :: "response \<Rightarrow> string option" where
  "cd_filename response =
     (case header_get (headers response) ''Content-Disposition'' of
        None \<Rightarrow> None
      | Some cd \<Rightarrow>
          (case List.find (\<lambda>p. startswith (lower p) ''filename='')
                  (map (strip_chars is_space) (split_on (CHR '';'') cd)) of
             None \<Rightarrow> None
           | Some p \<Rightarrow> Some (strip_chars (\<lambda>c. c = dquote) (drop 9 p))))"

definition last_segment :: "string \<Rightarrow> string" where
  "last_segment p = last (split_on (CHR ''/'') p)"

subsection \<open>Concrete transfers\<close>

text \<open>
  A server that answers every request with a \<^verbatim>\<open>Content-Disposition\<close> header naming
  \<^verbatim>\<open>weights.bin\<close>, and one that names \<^verbatim>\<open>sub/x.bin\<close>; a library that takes the
  URLs beginning with \<^verbatim>\<open>https:\<close>, joins paths with a slash and finds the
  directories above a path at its slashes, that finds no archive, and one that
  finds an archive of two entries; a disk that holds the target already and a
  token for the host, and an empty disk.
\<close>

definition demo_response :: response where
  "demo_response =
     \<lparr>headers = [(''Content-Disposition'',
                  ''attachment; filename='' @ [dquote] @ ''weights.bin'' @ [dquote])],
      body = ''PK-bytes'',
      fault = None\<rparr>"

fun prefixes_at_slash :: "string \<Rightarrow> string \<Rightarrow> string list" where
  "prefixes_at_slash before [] = []"
| "prefixes_at_slash before (c # cs) =
     (if c = CHR ''/'' \<and> before \<noteq> [] then [before] else [])
       @ prefixes_at_slash (before @ [c]) cs"

definition slash_parents :: "string \<Rightarrow> string list" where
  "slash_parents p = rev (prefixes_at_slash [] p)"

definition demo_env :: env where
  "demo_env =
     \<lparr>url_hostname = (\<lambda>u. Some ''example.org''),
      url_path = (\<lambda>u. ''/files/blob''),
      url_type = (\<lambda>u. if startswith u ''https:'' then Some ''https'' else None),
      urlopen = (\<lambda>r. Inr demo_response),
      joinpath = (\<lambda>d f. d @ ''/'' @ f),
      path_parents = slash_parents,
      py_int = (\<lambda>s. None),
      is_zipfile = (\<lambda>c. False),
      zip_extractall = (\<lambda>a c d. ([], None))\<rparr>"


definition nested_response :: response where
  "nested_response =
     \<lparr>headers = [(''Content-Disposition'', ''attachment; filename=sub/x.bin'')],
      body = ''data'',
      fault = None\<rparr>"

definition nested_env :: env where
  "nested_env = demo_env\<lparr>urlopen := (\<lambda>r. Inr nested_response)\<rparr>"

definition demo_world :: world where
  "demo_world =
     \<lparr>fs = [''models/weights.bin'' \<mapsto> File ''old''],
      tokens_file = Some (fmap_of_list [(''example.org'', ''s3cret'')]),
      index_file = None,
      stdout = [],
      stderr = [],
      requested = []\<rparr>"

definition empty_world :: world where
  "empty_world =
     \<lparr>fs = Map.empty, tokens_file = None, index_file = None,
      stdout = [], stderr = [], requested = []\<rparr>"



section \<open>Properties of the group expansion\<close>

lemma set_first_occurrences: "set (first_occurrences xs) = set xs"
  by (induction xs) auto

lemma distinct_first_occurrences: "distinct (first_occurrences xs)"
  by (induction xs) (auto simp: set_first_occurrences)

lemma filter_unseen_neq:
  "filter (\<lambda>y. y \<notin> seen) (filter (\<lambda>y. y \<noteq> x) l) = filter (\<lambda>y. y \<notin> insert x seen) l"
  by (induction l) simp_all

lemma dedup_first_occurrences:
  "dedup xs seen result = result @ filter (\<lambda>y. y \<notin> seen) (first_occurrences xs)"
proof (induction xs arbitrary: seen result)
  case Nil
  show ?case by simp
next
  case (Cons x xs)
  show ?case
  proof (cases "x \<in> seen")
    case True
    then have "insert x seen = seen" by (rule insert_absorb)
    with filter_unseen_neq [of seen x "first_occurrences xs"]
    have "filter (\<lambda>y. y \<notin> seen) (filter (\<lambda>y. y \<noteq> x) (first_occurrences xs))
               = filter (\<lambda>y. y \<notin> seen) (first_occurrences xs)"
      by simp
    with True Cons.IH [of seen result] show ?thesis by simp
  next
    case False
    with Cons.IH [of "insert x seen" "result @ [x]"]
      filter_unseen_neq [of seen x "first_occurrences xs"]
    show ?thesis by simp
  qed
qed

declare expand.simps [simp del]

lemma expand_group:
  assumes "name \<notin> visiting st" and "fmlookup gs name = Some members"
  shows "expand gs name st =
     (case expand_members gs members
                  (st\<lparr>visiting := insert name (visiting st),
                      printed := printed st @ [group_msg name members]\<rparr>) of
             Inl e \<Rightarrow> Inl e
           | Inr st' \<Rightarrow> Inr (st'\<lparr>visiting := visiting st' - {name}\<rparr>))"
  using assms by (simp add: expand.simps)

lemma expand_leaf:
  assumes "name \<notin> visiting st" and "fmlookup gs name = None"
  shows "expand gs name st = Inr (st\<lparr>expanded := expanded st @ [name]\<rparr>)"
  using assms by (simp add: expand.simps)

lemma expand_cycle:
  assumes "name \<in> visiting st"
  shows "expand gs name st = Inl (SystemExit (cycle_msg name))"
  using assms by (simp add: expand.simps)

lemma expand_visiting:
  "expand gs name st = Inr st' \<Longrightarrow> visiting st' = visiting st"
  "expand_members gs ms st = Inr st' \<Longrightarrow> visiting st' = visiting st"
proof (induction gs name st and gs ms st arbitrary: st' and st' rule: expand_expand_members.induct)
  case (1 gs name st)
  show ?case
  proof (cases "name \<in> visiting st")
    case True
    with "1.prems" show ?thesis by (simp add: expand_cycle)
  next
    case nv: False
    show ?thesis
    proof (cases "fmlookup gs name")
      case None
      with "1.prems" nv show ?thesis by (auto simp: expand_leaf)
    next
      case (Some members)
      from "1.prems" obtain st1 where
        r: "expand_members gs members
            (st\<lparr>visiting := insert name (visiting st),
                printed := printed st @ [group_msg name members]\<rparr>) = Inr st1"
        and st': "st' = st1\<lparr>visiting := visiting st1 - {name}\<rparr>"
        unfolding expand_group [OF nv Some] by (auto split: sum.splits)
      from "1.IH" [OF nv Some r] have "visiting st1 = insert name (visiting st)" by simp
      with st' nv show ?thesis by auto
    qed
  qed
next
  case (2 gs st)
  then show ?case by simp
next
  case (3 gs m ms st)
  from "3.prems" obtain st1 where r: "expand gs m st = Inr st1"
    and r': "expand_members gs ms st1 = Inr st'"
    by (auto split: sum.splits)
  from "3.IH"(1) [OF r] "3.IH"(2) [OF r r'] show ?case by simp
qed


lemma group_refs_member:
  "fmlookup gs g = Some ms \<Longrightarrow> m \<in> set ms \<Longrightarrow> (g, m) \<in> group_refs gs"
  by (auto simp: group_refs_def)

lemma group_refs_leaf:
  "fmlookup gs g = None \<Longrightarrow> (g, m) \<notin> group_refs gs"
  by (simp add: group_refs_def)

lemma group_refs_cases:
  assumes "(g, m) \<in> group_refs gs"
  obtains ms where "fmlookup gs g = Some ms" and "m \<in> set ms"
  using assms by (auto simp: group_refs_def)

lemma expand_dfs:
  "expand gs name st = Inr st' \<Longrightarrow>
     \<exists>xs. dfs_leaves gs name xs \<and> expanded st' = expanded st @ xs"
  "expand_members gs ms st = Inr st' \<Longrightarrow>
     \<exists>xs. dfs_leaves_list gs ms xs \<and> expanded st' = expanded st @ xs"
proof (induction gs name st and gs ms st arbitrary: st' and st' rule: expand_expand_members.induct)
  case (1 gs name st)
  show ?case
  proof (cases "name \<in> visiting st")
    case True
    with "1.prems" show ?thesis by (simp add: expand_cycle)
  next
    case nv: False
    show ?thesis
    proof (cases "fmlookup gs name")
      case None
      from "1.prems" have "st' = st\<lparr>expanded := expanded st @ [name]\<rparr>"
        unfolding expand_leaf [OF nv None] by simp
      moreover have "dfs_leaves gs name [name]" using None by (rule leaf)
      ultimately show ?thesis by auto
    next
      case (Some members)
      from "1.prems" obtain st1 where
        r: "expand_members gs members
            (st\<lparr>visiting := insert name (visiting st),
                printed := printed st @ [group_msg name members]\<rparr>) = Inr st1"
        and st': "st' = st1\<lparr>visiting := visiting st1 - {name}\<rparr>"
        unfolding expand_group [OF nv Some] by (auto split: sum.splits)
      from "1.IH" [OF nv Some r] obtain xs where
        d: "dfs_leaves_list gs members xs" and e: "expanded st1 = expanded st @ xs"
        by auto
      from Some d have "dfs_leaves gs name xs" by (rule group)
      with e st' show ?thesis by auto
    qed
  qed
next
  case (2 gs st)
  then have "st' = st" by simp
  with nil [of gs] show ?case by auto
next
  case (3 gs m ms st)
  from "3.prems" obtain st1 where r: "expand gs m st = Inr st1"
    and r': "expand_members gs ms st1 = Inr st'"
    by (auto split: sum.splits)
  from "3.IH"(1) [OF r] obtain xs where
    d: "dfs_leaves gs m xs" and e: "expanded st1 = expanded st @ xs" by auto
  from "3.IH"(2) [OF r r'] obtain ys where
    d': "dfs_leaves_list gs ms ys" and e': "expanded st' = expanded st1 @ ys" by auto
  from d d' have "dfs_leaves_list gs (m # ms) (xs @ ys)" by (rule cons)
  moreover from e e' have "expanded st' = expanded st @ (xs @ ys)" by simp
  ultimately show ?case by blast
qed


lemma expand_error_cycle:
  "expand gs name st = Inl e \<Longrightarrow>
     (\<forall>v\<in>visiting st. (v, name) \<in> (group_refs gs)\<^sup>+) \<Longrightarrow>
     \<exists>c. e = SystemExit (cycle_msg c) \<and> (name, c) \<in> (group_refs gs)\<^sup>* \<and>
         (c, c) \<in> (group_refs gs)\<^sup>+"
  "expand_members gs ms st = Inl e \<Longrightarrow>
     (\<forall>m\<in>set ms. \<forall>v\<in>visiting st. (v, m) \<in> (group_refs gs)\<^sup>+) \<Longrightarrow>
     \<exists>c. e = SystemExit (cycle_msg c) \<and> (\<exists>m\<in>set ms. (m, c) \<in> (group_refs gs)\<^sup>*) \<and>
         (c, c) \<in> (group_refs gs)\<^sup>+"
proof (induction gs name st and gs ms st arbitrary: e and e rule: expand_expand_members.induct)
  case (1 gs name st)
  show ?case
  proof (cases "name \<in> visiting st")
    case True
    with "1.prems"(1) have "e = SystemExit (cycle_msg name)" by (simp add: expand_cycle)
    moreover from True "1.prems"(2) have "(name, name) \<in> (group_refs gs)\<^sup>+" by blast
    ultimately show ?thesis by blast
  next
    case nv: False
    show ?thesis
    proof (cases "fmlookup gs name")
      case None
      with "1.prems"(1) nv show ?thesis by (simp add: expand_leaf)
    next
      case (Some members)
      from "1.prems"(1) have
        r: "expand_members gs members
            (st\<lparr>visiting := insert name (visiting st),
                printed := printed st @ [group_msg name members]\<rparr>) = Inl e"
        unfolding expand_group [OF nv Some] by (auto split: sum.splits)
      have inv: "\<forall>m\<in>set members. \<forall>v\<in>visiting
            (st\<lparr>visiting := insert name (visiting st),
                printed := printed st @ [group_msg name members]\<rparr>).
              (v, m) \<in> (group_refs gs)\<^sup>+"
      proof (intro ballI)
        fix m v
        assume m: "m \<in> set members"
          and v: "v \<in> visiting (st\<lparr>visiting := insert name (visiting st),
                printed := printed st @ [group_msg name members]\<rparr>)"
        from Some m have step: "(name, m) \<in> group_refs gs" by (rule group_refs_member)
        from v have "v = name \<or> v \<in> visiting st" by simp
        then show "(v, m) \<in> (group_refs gs)\<^sup>+"
        proof
          assume "v = name"
          with step show ?thesis by blast
        next
          assume "v \<in> visiting st"
          with "1.prems"(2) have "(v, name) \<in> (group_refs gs)\<^sup>+" by blast
          from this step show ?thesis by (rule trancl.trancl_into_trancl)
        qed
      qed
      from "1.IH" [OF nv Some r inv] obtain c m where
        e: "e = SystemExit (cycle_msg c)" and m: "m \<in> set members"
        and mc: "(m, c) \<in> (group_refs gs)\<^sup>*" and cc: "(c, c) \<in> (group_refs gs)\<^sup>+"
        by blast
      from Some m have "(name, m) \<in> group_refs gs" by (rule group_refs_member)
      from this mc have "(name, c) \<in> (group_refs gs)\<^sup>*" by (rule converse_rtrancl_into_rtrancl)
      with e cc show ?thesis by blast
    qed
  qed
next
  case (2 gs st)
  then show ?case by simp
next
  case (3 gs m ms st)
  show ?case
  proof (cases "expand gs m st")
    case (Inl e')
    with "3.prems"(1) have e: "e' = e" by simp
    from "3.prems"(2) have "\<forall>v\<in>visiting st. (v, m) \<in> (group_refs gs)\<^sup>+" by simp
    from "3.IH"(1) [OF Inl [unfolded e] this] show ?thesis by auto
  next
    case (Inr st1)
    with "3.prems"(1) have r': "expand_members gs ms st1 = Inl e" by simp
    from Inr have "visiting st1 = visiting st" by (rule expand_visiting(1))
    with "3.prems"(2) have "\<forall>m\<in>set ms. \<forall>v\<in>visiting st1. (v, m) \<in> (group_refs gs)\<^sup>+"
      by simp
    from "3.IH"(2) [OF Inr r' this] show ?thesis by auto
  qed
qed

lemma expand_ok_acyclic:
  "expand gs name st = Inr st' \<Longrightarrow> (name, c) \<in> (group_refs gs)\<^sup>* \<Longrightarrow>
     c \<notin> visiting st \<and> (c, c) \<notin> (group_refs gs)\<^sup>+"
  "expand_members gs ms st = Inr st' \<Longrightarrow> m \<in> set ms \<Longrightarrow> (m, c) \<in> (group_refs gs)\<^sup>* \<Longrightarrow>
     c \<notin> visiting st \<and> (c, c) \<notin> (group_refs gs)\<^sup>+"
proof (induction gs name st and gs ms st arbitrary: st' c and st' m c
    rule: expand_expand_members.induct)
  case (1 gs name st)
  show ?case
  proof (cases "name \<in> visiting st")
    case True
    with "1.prems"(1) show ?thesis by (simp add: expand_cycle)
  next
    case nv: False
    show ?thesis
    proof (cases "fmlookup gs name")
      case None
      have no: "\<And>y. (name, y) \<notin> group_refs gs" using None by (rule group_refs_leaf)
      from "1.prems"(2) no have c: "c = name" by (auto elim: converse_rtranclE)
      have "(name, name) \<notin> (group_refs gs)\<^sup>+"
      proof
        assume "(name, name) \<in> (group_refs gs)\<^sup>+"
        then obtain y where "(name, y) \<in> group_refs gs" by (auto dest: tranclD)
        with no show False by simp
      qed
      with c nv show ?thesis by simp
    next
      case (Some members)
      from "1.prems"(1) obtain st1 where
        r: "expand_members gs members
            (st\<lparr>visiting := insert name (visiting st),
                printed := printed st @ [group_msg name members]\<rparr>) = Inr st1"
        unfolding expand_group [OF nv Some] by (auto split: sum.splits)
      have below: "y \<notin> insert name (visiting st) \<and> (y, y) \<notin> (group_refs gs)\<^sup>+"
        if "(name, m) \<in> group_refs gs" and "(m, y) \<in> (group_refs gs)\<^sup>*" for m y
      proof -
        from that(1) Some have "m \<in> set members" by (auto elim: group_refs_cases)
        from "1.IH" [OF nv Some r this that(2)] show ?thesis by simp
      qed
      from "1.prems"(2) show ?thesis
      proof (cases rule: converse_rtranclE)
        case base
        have "(name, name) \<notin> (group_refs gs)\<^sup>+"
        proof
          assume "(name, name) \<in> (group_refs gs)\<^sup>+"
          then obtain m where "(name, m) \<in> group_refs gs" and "(m, name) \<in> (group_refs gs)\<^sup>*"
            by (auto dest: tranclD)
          from below [OF this] show False by simp
        qed
        with base nv show ?thesis by simp
      next
        case (step m)
        from below [OF step] show ?thesis by simp
      qed
    qed
  qed
next
  case (2 gs st)
  then show ?case by simp
next
  case (3 gs m' ms st)
  from "3.prems"(1) obtain st1 where r: "expand gs m' st = Inr st1"
    and r': "expand_members gs ms st1 = Inr st'"
    by (auto split: sum.splits)
  from r have vis: "visiting st1 = visiting st" by (rule expand_visiting(1))
  from "3.prems"(2) have "m = m' \<or> m \<in> set ms" by simp
  then show ?case
  proof
    assume "m = m'"
    with "3.IH"(1) [OF r] "3.prems"(3) show ?thesis by simp
  next
    assume "m \<in> set ms"
    from "3.IH"(2) [OF r r' this "3.prems"(3)] vis show ?thesis by simp
  qed
qed


lemma dfs_leaves_deterministic:
  "dfs_leaves gs n xs \<Longrightarrow> dfs_leaves gs n ys \<Longrightarrow> xs = ys"
  "dfs_leaves_list gs ms xs \<Longrightarrow> dfs_leaves_list gs ms ys \<Longrightarrow> xs = ys"
proof (induct arbitrary: ys and ys rule: dfs_leaves_dfs_leaves_list.inducts)
  case (leaf n)
  then show ?case by (auto elim: dfs_leaves.cases)
next
  case (group n ms xs)
  from group(1,4) have "dfs_leaves_list gs ms ys"
    by (auto elim: dfs_leaves.cases)
  then show ?case by (rule group(3))
next
  case nil
  then show ?case by (auto elim: dfs_leaves_list.cases)
next
  case (cons m xs ms zs)
  from cons(5) obtain xs' zs' where ys: "ys = xs' @ zs'"
    and a: "dfs_leaves gs m xs'" and b: "dfs_leaves_list gs ms zs'"
    by (auto elim: dfs_leaves_list.cases)
  from cons(2) [OF a] cons(4) [OF b] ys show ?case by simp
qed

lemma no_cycle_by_rank:
  fixes rank :: "string \<Rightarrow> nat"
  assumes "\<And>g m. (g, m) \<in> group_refs gs \<Longrightarrow> rank m < rank g"
  shows "(c, c) \<notin> (group_refs gs)\<^sup>+"
proof
  assume cc: "(c, c) \<in> (group_refs gs)\<^sup>+"
  have "(a, b) \<in> (group_refs gs)\<^sup>+ \<Longrightarrow> rank b < rank a" for a b
  proof (induction rule: trancl.induct)
    case (r_into_trancl a b)
    then show ?case by (rule assms)
  next
    case (trancl_into_trancl a b c)
    from assms [OF trancl_into_trancl.hyps(2)] trancl_into_trancl.IH show ?case by simp
  qed
  from this [OF cc] show False by simp
qed

lemma example_refs_rank:
  "(g, m) \<in> group_refs (groups example_index) \<Longrightarrow>
     (if m = ''g'' then 2 else if m = ''h'' then 1 else (0::nat))
       < (if g = ''g'' then 2 else if g = ''h'' then 1 else 0)"
  by (auto simp: group_refs_def example_index_def split: if_splits)

lemma example_eval: "expand_names example_index [''g''] = Inr [''a'', ''b'']"
  by (simp add: expand_names_def example_index_def expand.simps)

lemma cyclic_eval: "expand_names cyclic_index [''x''] = Inl (SystemExit (cycle_msg ''x''))"
  by (simp add: expand_names_def cyclic_index_def expand.simps)

lemma cyclic_reaches: "reaches_cycle (groups cyclic_index) [''x''] ''x''"
proof -
  have "(''x'', ''y'') \<in> group_refs (groups cyclic_index)"
    by (simp add: group_refs_def cyclic_index_def)
  moreover have "(''y'', ''x'') \<in> group_refs (groups cyclic_index)"
    by (simp add: group_refs_def cyclic_index_def)
  ultimately have "(''x'', ''x'') \<in> (group_refs (groups cyclic_index))\<^sup>+"
    by (rule trancl.intros(2) [OF trancl.intros(1)])
  then show ?thesis by (simp add: reaches_cycle_def)
qed

text \<open>
  Claim C1. When the requested names reach no cycle of group references,
  \<open>expand_names\<close> returns a list: the leaves of the depth-first, left-to-right
  traversal of the requested names, each kept once at its first appearance (so the
  list has no repetition and holds exactly the leaves reached). The traversal is
  unique. For the groups g = [a, h] and h = [b, a], expanding [g] gives [a, b]
  (the witness below).
\<close>

theorem expand_names_first_seen:
  assumes "\<forall>c. \<not> reaches_cycle (groups idx) names c"
  shows "\<exists>xs. dfs_leaves_list (groups idx) names xs \<and>
              (\<forall>ys. dfs_leaves_list (groups idx) names ys \<longrightarrow> ys = xs) \<and>
              expand_names idx names = Inr (first_occurrences xs) \<and>
              distinct (first_occurrences xs) \<and> set (first_occurrences xs) = set xs"
proof (cases "expand_members (groups idx) names \<lparr>visiting = {}, expanded = [], printed = []\<rparr>")
  case (Inl e)
  have "\<forall>m\<in>set names. \<forall>v\<in>visiting \<lparr>visiting = {}, expanded = [], printed = []\<rparr>.
          (v, m) \<in> (group_refs (groups idx))\<^sup>+"
    by simp
  from expand_error_cycle(2) [OF Inl this] obtain c where
    "\<exists>m\<in>set names. (m, c) \<in> (group_refs (groups idx))\<^sup>*"
    and "(c, c) \<in> (group_refs (groups idx))\<^sup>+"
    by blast
  then have "reaches_cycle (groups idx) names c" by (simp add: reaches_cycle_def)
  with assms show ?thesis by blast
next
  case (Inr st)
  from expand_dfs(2) [OF Inr] obtain xs where
    d: "dfs_leaves_list (groups idx) names xs" and e: "expanded st = xs" by auto
  have "dedup xs {} [] = first_occurrences xs"
    by (simp add: dedup_first_occurrences)
  with Inr e have res: "expand_names idx names = Inr (first_occurrences xs)"
    by (simp add: expand_names_def)
  have uniq: "\<forall>ys. dfs_leaves_list (groups idx) names ys \<longrightarrow> ys = xs"
  proof (intro allI impI)
    fix ys
    assume "dfs_leaves_list (groups idx) names ys"
    with d have "xs = ys" by (rule dfs_leaves_deterministic(2))
    then show "ys = xs" by (rule sym)
  qed
  show ?thesis
  proof (intro exI conjI)
    show "dfs_leaves_list (groups idx) names xs" by (rule d)
    show "\<forall>ys. dfs_leaves_list (groups idx) names ys \<longrightarrow> ys = xs" by (rule uniq)
    show "expand_names idx names = Inr (first_occurrences xs)" by (rule res)
    show "distinct (first_occurrences xs)" by (rule distinct_first_occurrences)
    show "set (first_occurrences xs) = set xs" by (rule set_first_occurrences)
  qed
qed

theorem expand_names_first_seen_witness:
  "(\<forall>c. \<not> reaches_cycle (groups example_index) [''g''] c) \<and>
   expand_names example_index [''g''] = Inr [''a'', ''b''] \<and>
   (\<exists>xs. dfs_leaves_list (groups example_index) [''g''] xs \<and>
         first_occurrences xs = [''a'', ''b''] \<and> distinct (first_occurrences xs))"
proof -
  have acyc: "(c, c) \<notin> (group_refs (groups example_index))\<^sup>+" for c
    by (rule no_cycle_by_rank [of _ "\<lambda>n. if n = ''g'' then 2 else if n = ''h'' then 1 else 0"])
      (rule example_refs_rank)
  then have hyp: "\<forall>c. \<not> reaches_cycle (groups example_index) [''g''] c"
    by (simp add: reaches_cycle_def)
  from expand_names_first_seen [OF hyp] obtain xs where
    "dfs_leaves_list (groups example_index) [''g''] xs"
    and "expand_names example_index [''g''] = Inr (first_occurrences xs)"
    and "distinct (first_occurrences xs)"
    by blast
  with example_eval hyp show ?thesis by auto
qed

lemma expand_completes:
  "expand gs name st = Inr st' \<Longrightarrow> visiting st = set path \<Longrightarrow> completes gs path name"
  "expand_members gs ms st = Inr st' \<Longrightarrow> visiting st = set path \<Longrightarrow> completes_all gs path ms"
proof (induction gs name st and gs ms st arbitrary: st' path and st' path
    rule: expand_expand_members.induct)
  case (1 gs name st)
  show ?case
  proof (cases "name \<in> visiting st")
    case True
    with "1.prems"(1) show ?thesis by (simp add: expand_cycle)
  next
    case nv: False
    with "1.prems"(2) have np: "name \<notin> set path" by simp
    show ?thesis
    proof (cases "fmlookup gs name")
      case None
      with np show ?thesis by (rule done_leaf)
    next
      case (Some members)
      from "1.prems"(1) obtain st1 where
        r: "expand_members gs members
            (st\<lparr>visiting := insert name (visiting st),
                printed := printed st @ [group_msg name members]\<rparr>) = Inr st1"
        unfolding expand_group [OF nv Some] by (auto split: sum.splits)
      have "visiting (st\<lparr>visiting := insert name (visiting st),
                printed := printed st @ [group_msg name members]\<rparr>) = set (name # path)"
        using "1.prems"(2) by simp
      from "1.IH" [OF nv Some r this] have "completes_all gs (name # path) members" .
      with np Some show ?thesis by (rule done_group)
    qed
  qed
next
  case (2 gs st)
  show ?case by (rule done_nil)
next
  case (3 gs m ms st)
  from "3.prems"(1) obtain st1 where r: "expand gs m st = Inr st1"
    and r': "expand_members gs ms st1 = Inr st'"
    by (auto split: sum.splits)
  from r have "visiting st1 = visiting st" by (rule expand_visiting(1))
  with "3.prems"(2) have v1: "visiting st1 = set path" by simp
  from "3.IH"(1) [OF r "3.prems"(2)] "3.IH"(2) [OF r r' v1] show ?case by (rule done_cons)
qed

lemma expand_closes:
  "expand gs name st = Inl e \<Longrightarrow> visiting st = set path \<Longrightarrow>
     \<exists>c. closes gs path name c \<and> e = SystemExit (cycle_msg c)"
  "expand_members gs ms st = Inl e \<Longrightarrow> visiting st = set path \<Longrightarrow>
     \<exists>c. closes_in gs path ms c \<and> e = SystemExit (cycle_msg c)"
proof (induction gs name st and gs ms st arbitrary: e path and e path
    rule: expand_expand_members.induct)
  case (1 gs name st)
  show ?case
  proof (cases "name \<in> visiting st")
    case True
    with "1.prems"(1) have "e = SystemExit (cycle_msg name)" by (simp add: expand_cycle)
    moreover from True "1.prems"(2) have "closes gs path name name" by (simp add: reenter)
    ultimately show ?thesis by blast
  next
    case nv: False
    with "1.prems"(2) have np: "name \<notin> set path" by simp
    show ?thesis
    proof (cases "fmlookup gs name")
      case None
      with "1.prems"(1) nv show ?thesis by (simp add: expand_leaf)
    next
      case (Some members)
      from "1.prems"(1) have
        r: "expand_members gs members
            (st\<lparr>visiting := insert name (visiting st),
                printed := printed st @ [group_msg name members]\<rparr>) = Inl e"
        unfolding expand_group [OF nv Some] by (auto split: sum.splits)
      have "visiting (st\<lparr>visiting := insert name (visiting st),
                printed := printed st @ [group_msg name members]\<rparr>) = set (name # path)"
        using "1.prems"(2) by simp
      from "1.IH" [OF nv Some r this] obtain c where
        c: "closes_in gs (name # path) members c" and e: "e = SystemExit (cycle_msg c)"
        by blast
      from np Some c have "closes gs path name c" by (rule below)
      with e show ?thesis by blast
    qed
  qed
next
  case (2 gs st)
  then show ?case by simp
next
  case (3 gs m ms st)
  show ?case
  proof (cases "expand gs m st")
    case (Inl e')
    with "3.prems"(1) have e: "e' = e" by simp
    from "3.IH"(1) [OF Inl [unfolded e] "3.prems"(2)] obtain c where
      c: "closes gs path m c" and m: "e = SystemExit (cycle_msg c)" by blast
    from c have "closes_in gs path (m # ms) c" by (rule first)
    with m show ?thesis by blast
  next
    case (Inr st1)
    with "3.prems"(1) have r': "expand_members gs ms st1 = Inl e" by simp
    from Inr have "visiting st1 = visiting st" by (rule expand_visiting(1))
    with "3.prems"(2) have v1: "visiting st1 = set path" by simp
    from "3.IH"(2) [OF Inr r' v1] obtain c where
      c: "closes_in gs path ms c" and m: "e = SystemExit (cycle_msg c)" by blast
    from expand_completes(1) [OF Inr "3.prems"(2)] c have "closes_in gs path (m # ms) c"
      by (rule later)
    with m show ?thesis by blast
  qed
qed

lemma completes_expand:
  "completes gs path n \<Longrightarrow> visiting st = set path \<Longrightarrow> \<exists>st'. expand gs n st = Inr st'"
  "completes_all gs path ms \<Longrightarrow> visiting st = set path \<Longrightarrow> \<exists>st'. expand_members gs ms st = Inr st'"
proof (induct arbitrary: st and st rule: completes_completes_all.inducts)
  case (done_leaf n path)
  then have "n \<notin> visiting st" by simp
  from expand_leaf [OF this done_leaf(2)] show ?case by simp
next
  case (done_group n path ms)
  then have nv: "n \<notin> visiting st" by simp
  have "visiting (st\<lparr>visiting := insert n (visiting st),
                printed := printed st @ [group_msg n ms]\<rparr>) = set (n # path)"
    using done_group(5) by simp
  from done_group(4) [OF this] obtain st1 where
    "expand_members gs ms (st\<lparr>visiting := insert n (visiting st),
                printed := printed st @ [group_msg n ms]\<rparr>) = Inr st1" ..
  then show ?case by (simp add: expand_group [OF nv done_group(2)])
next
  case (done_nil path)
  show ?case by simp
next
  case (done_cons path m ms)
  from done_cons(2) [OF done_cons(5)] obtain st1 where r: "expand gs m st = Inr st1" ..
  then have "visiting st1 = visiting st" by (rule expand_visiting(1))
  with done_cons(5) have "visiting st1 = set path" by simp
  from done_cons(4) [OF this] obtain st2 where "expand_members gs ms st1 = Inr st2" ..
  with r show ?case by simp
qed

lemma closes_expand:
  "closes gs path n c \<Longrightarrow> visiting st = set path \<Longrightarrow>
     expand gs n st = Inl (SystemExit (cycle_msg c))"
  "closes_in gs path ms c \<Longrightarrow> visiting st = set path \<Longrightarrow>
     expand_members gs ms st = Inl (SystemExit (cycle_msg c))"
proof (induct arbitrary: st and st rule: closes_closes_in.inducts)
  case (reenter n path)
  then have "n \<in> visiting st" by simp
  then show ?case by (rule expand_cycle)
next
  case (below n path ms c)
  then have nv: "n \<notin> visiting st" by simp
  have "visiting (st\<lparr>visiting := insert n (visiting st),
                printed := printed st @ [group_msg n ms]\<rparr>) = set (n # path)"
    using below(5) by simp
  from below(4) [OF this] show ?case by (simp add: expand_group [OF nv below(2)])
next
  case (first path m c ms)
  from first(2) [OF first(3)] show ?case by simp
next
  case (later path m ms c)
  from completes_expand(1) [OF later(1) later(4)] obtain st1 where
    r: "expand gs m st = Inr st1" ..
  then have "visiting st1 = visiting st" by (rule expand_visiting(1))
  with later(4) have "visiting st1 = set path" by simp
  from later(3) [OF this] r show ?case by simp
qed

lemma cycle_msg_inject: "cycle_msg a = cycle_msg b \<Longrightarrow> a = b"
  by (simp add: cycle_msg_def)

lemma nested_eval: "expand_names nested_index [''x''] = Inl (SystemExit (cycle_msg ''y''))"
  by (simp add: expand_names_def nested_index_def expand.simps)

lemma nested_reaches: "reaches_cycle (groups nested_index) [''x''] ''y''"
proof -
  have xy: "(''x'', ''y'') \<in> group_refs (groups nested_index)"
    by (simp add: group_refs_def nested_index_def)
  have "(''y'', ''z'') \<in> group_refs (groups nested_index)"
    by (simp add: group_refs_def nested_index_def)
  moreover have "(''z'', ''y'') \<in> group_refs (groups nested_index)"
    by (simp add: group_refs_def nested_index_def)
  ultimately have "(''y'', ''y'') \<in> (group_refs (groups nested_index))\<^sup>+"
    by (rule trancl.intros(2) [OF trancl.intros(1)])
  with xy show ?thesis by (auto simp: reaches_cycle_def)
qed

text \<open>
  Claim C2. When the requested names reach a cycle of group references,
  \<open>expand_names\<close> returns no list: it leaves with the \<^verbatim>\<open>SystemExit\<close> of line 76,
  and the name in its message is the one name at which the cycle closes, the
  first name met while it is on the current expansion path; this name is on a
  cycle that the requested names reach. For the groups x = [y] and y = [x],
  expanding [x] stops at x; for x = [y], y = [z] and z = [y] it stops at y (the
  witness below).
\<close>

theorem expand_names_cycle_error:
  assumes "reaches_cycle (groups idx) names c"
  shows "\<exists>n. closes_in (groups idx) [] names n \<and>
             (\<forall>n'. closes_in (groups idx) [] names n' \<longrightarrow> n' = n) \<and>
             reaches_cycle (groups idx) names n \<and>
             expand_names idx names =
               Inl (SystemExit (''Error: cyclic group reference detected at ''
                                  @ [CHR 0x27] @ n @ [CHR 0x27])) \<and>
             (\<forall>leaves. expand_names idx names \<noteq> Inr leaves)"
proof (cases "expand_members (groups idx) names \<lparr>visiting = {}, expanded = [], printed = []\<rparr>")
  case (Inl e)
  have vis: "visiting \<lparr>visiting = {}, expanded = [], printed = []\<rparr> = set []" by simp
  have "\<forall>m\<in>set names. \<forall>v\<in>visiting \<lparr>visiting = {}, expanded = [], printed = []\<rparr>.
          (v, m) \<in> (group_refs (groups idx))\<^sup>+"
    by simp
  from expand_error_cycle(2) [OF Inl this] obtain n where
    e: "e = SystemExit (cycle_msg n)"
    and "\<exists>m\<in>set names. (m, n) \<in> (group_refs (groups idx))\<^sup>*"
    and "(n, n) \<in> (group_refs (groups idx))\<^sup>+"
    by blast
  then have rc: "reaches_cycle (groups idx) names n" by (simp add: reaches_cycle_def)
  from expand_closes(2) [OF Inl vis] obtain n0 where
    cl0: "closes_in (groups idx) [] names n0" and "e = SystemExit (cycle_msg n0)" by blast
  with e have "n0 = n" by (simp add: cycle_msg_inject)
  with cl0 have cl: "closes_in (groups idx) [] names n" by simp
  have uniq: "\<forall>n'. closes_in (groups idx) [] names n' \<longrightarrow> n' = n"
  proof (intro allI impI)
    fix n'
    assume "closes_in (groups idx) [] names n'"
    from closes_expand(2) [OF this vis] Inl e show "n' = n"
      by (simp add: cycle_msg_inject)
  qed
  from Inl e have res: "expand_names idx names =
               Inl (SystemExit (''Error: cyclic group reference detected at ''
                                  @ [CHR 0x27] @ n @ [CHR 0x27]))"
    by (simp add: expand_names_def cycle_msg_def apostrophe_def)
  show ?thesis
  proof (intro exI conjI)
    show "closes_in (groups idx) [] names n" by (rule cl)
    show "\<forall>n'. closes_in (groups idx) [] names n' \<longrightarrow> n' = n" by (rule uniq)
    show "reaches_cycle (groups idx) names n" by (rule rc)
    show "expand_names idx names =
               Inl (SystemExit (''Error: cyclic group reference detected at ''
                                  @ [CHR 0x27] @ n @ [CHR 0x27]))" by (rule res)
    show "\<forall>leaves. expand_names idx names \<noteq> Inr leaves" using res by simp
  qed
next
  case (Inr st)
  from assms obtain r where r: "r \<in> set names"
    and rc: "(r, c) \<in> (group_refs (groups idx))\<^sup>*"
    and cc: "(c, c) \<in> (group_refs (groups idx))\<^sup>+"
    by (auto simp: reaches_cycle_def)
  from expand_ok_acyclic(2) [OF Inr r rc] cc show ?thesis by simp
qed

theorem expand_names_cycle_error_witness:
  "reaches_cycle (groups cyclic_index) [''x''] ''x'' \<and>
   closes_in (groups cyclic_index) [] [''x''] ''x'' \<and>
   expand_names cyclic_index [''x''] =
     Inl (SystemExit (''Error: cyclic group reference detected at ''
                        @ [CHR 0x27] @ ''x'' @ [CHR 0x27])) \<and>
   reaches_cycle (groups nested_index) [''x''] ''y'' \<and>
   closes_in (groups nested_index) [] [''x''] ''y'' \<and>
   expand_names nested_index [''x''] =
     Inl (SystemExit (''Error: cyclic group reference detected at ''
                        @ [CHR 0x27] @ ''y'' @ [CHR 0x27]))"
proof -
  from expand_names_cycle_error [OF cyclic_reaches] obtain n where
    "closes_in (groups cyclic_index) [] [''x''] n"
    and "expand_names cyclic_index [''x''] =
           Inl (SystemExit (''Error: cyclic group reference detected at ''
                              @ [CHR 0x27] @ n @ [CHR 0x27]))"
    by blast
  with cyclic_eval have a: "closes_in (groups cyclic_index) [] [''x''] ''x''"
    "expand_names cyclic_index [''x''] =
       Inl (SystemExit (''Error: cyclic group reference detected at ''
                          @ [CHR 0x27] @ ''x'' @ [CHR 0x27]))"
    by (simp_all add: cycle_msg_def apostrophe_def)
  from expand_names_cycle_error [OF nested_reaches] obtain n where
    "closes_in (groups nested_index) [] [''x''] n"
    and "expand_names nested_index [''x''] =
           Inl (SystemExit (''Error: cyclic group reference detected at ''
                              @ [CHR 0x27] @ n @ [CHR 0x27]))"
    by blast
  with nested_eval have b: "closes_in (groups nested_index) [] [''x''] ''y''"
    "expand_names nested_index [''x''] =
       Inl (SystemExit (''Error: cyclic group reference detected at ''
                          @ [CHR 0x27] @ ''y'' @ [CHR 0x27]))"
    by (simp_all add: cycle_msg_def apostrophe_def)
  from a b cyclic_reaches nested_reaches show ?thesis by simp
qed

section \<open>Properties of a transfer\<close>

lemma lower_char_equals [simp]: "lower_char c = CHR ''='' \<longleftrightarrow> c = CHR ''=''"
  by (auto simp: lower_char_def split: if_splits)

lemma lower_char_of_equals: "lower_char (CHR ''='') = CHR ''=''"
  by (simp add: lower_char_def)

lemma split_once_filename:
  assumes "startswith (lower p) ''filename=''"
  shows "split_once (CHR ''='') p = [take 8 p, drop 9 p]"
proof -
  have len: "length ''filename='' = 9" by simp
  from assms have "take 9 (map lower_char p) = ''filename=''"
    unfolding startswith_def lower_def len .
  then have "map lower_char (take 9 p) = ''filename=''"
    by (simp only: take_map)
  then obtain a b c d e f g h i where
    pre: "take 9 p = [a, b, c, d, e, f, g, h, i]"
    and l: "lower_char a = CHR ''f''" "lower_char b = CHR ''i''" "lower_char c = CHR ''l''"
      "lower_char d = CHR ''e''" "lower_char e = CHR ''n''" "lower_char f = CHR ''a''"
      "lower_char g = CHR ''m''" "lower_char h = CHR ''e''" "lower_char i = CHR ''=''"
    by (auto simp: map_eq_Cons_conv)
  from l have ne: "a \<noteq> CHR ''=''" "b \<noteq> CHR ''=''" "c \<noteq> CHR ''=''" "d \<noteq> CHR ''=''"
    "e \<noteq> CHR ''=''" "f \<noteq> CHR ''=''" "g \<noteq> CHR ''=''" "h \<noteq> CHR ''=''"
    by (auto simp: lower_char_of_equals)
  from l have i: "i = CHR ''=''" by simp
  have p: "p = [a, b, c, d, e, f, g, h, i] @ drop 9 p"
    using pre append_take_drop_id [of 9 p] by simp
  have "CHR ''='' \<in> set p" by (subst p) (simp add: i)
  moreover have "takeWhile (\<lambda>x. x \<noteq> CHR ''='') p = [a, b, c, d, e, f, g, h]"
    by (subst p) (simp add: ne i)
  moreover have "dropWhile (\<lambda>x. x \<noteq> CHR ''='') p = i # drop 9 p"
    by (subst p) (simp add: ne i)
  moreover have "take 8 p = [a, b, c, d, e, f, g, h]"
    by (subst p) simp
  ultimately show ?thesis by (simp add: split_once_def)
qed

lemma filename_param_find:
  "filename_param parts =
     (case List.find (\<lambda>p. startswith (lower p) ''filename='') (map (strip_chars is_space) parts) of
        None \<Rightarrow> None
      | Some p \<Rightarrow> Some (Inr (strip_chars (\<lambda>c. c = dquote) (drop 9 p))))"
proof (induction parts)
  case Nil
  show ?case by simp
next
  case (Cons part parts)
  show ?case
  proof (cases "startswith (lower (strip_chars is_space part)) ''filename=''")
    case True
    from split_once_filename [OF True] True show ?thesis by (simp add: Let_def)
  next
    case False
    with Cons.IH show ?thesis by (simp add: Let_def)
  qed
qed

lemma split_on_not_Nil [simp]: "split_on sep s \<noteq> []"
  by (induction s) (auto split: list.splits)

lemma split_on_absent: "sep \<notin> set s \<Longrightarrow> split_on sep s = [s]"
  by (induction s) auto

lemma split_on_present: "sep \<in> set s \<Longrightarrow> \<exists>p q qs. split_on sep s = p # q # qs"
proof (induction s)
  case Nil
  then show ?case by simp
next
  case (Cons c cs)
  show ?case
  proof (cases "c = sep")
    case True
    obtain q qs where "split_on sep cs = q # qs"
      using split_on_not_Nil [of sep cs] by (cases "split_on sep cs") auto
    with True show ?thesis by simp
  next
    case False
    with Cons.prems have "sep \<in> set cs" by simp
    from Cons.IH [OF this] obtain p q qs where "split_on sep cs = p # q # qs" by blast
    with False show ?thesis by simp
  qed
qed

lemma last_split_on:
  "last (split_on sep s) = rev (takeWhile (\<lambda>c. c \<noteq> sep) (rev s))"
proof (induction s)
  case Nil
  show ?case by simp
next
  case (Cons c cs)
  show ?case
  proof (cases "sep \<in> set cs")
    case True
    from split_on_present [OF True] obtain p q qs where sp: "split_on sep cs = p # q # qs"
      by blast
    from True have tw: "takeWhile (\<lambda>c. c \<noteq> sep) (rev cs @ [c]) = takeWhile (\<lambda>c. c \<noteq> sep) (rev cs)"
      by (auto simp: takeWhile_append)
    from sp Cons.IH tw show ?thesis by simp
  next
    case False
    then have sp: "split_on sep cs = [cs]" by (rule split_on_absent)
    from False have all: "takeWhile (\<lambda>c. c \<noteq> sep) (rev cs) = rev cs"
      by (auto simp: takeWhile_eq_all_conv)
    from False have tw: "takeWhile (\<lambda>c. c \<noteq> sep) (rev cs @ [c])
        = rev cs @ takeWhile (\<lambda>c. c \<noteq> sep) [c]"
      by (auto simp: takeWhile_append)
    from sp tw show ?thesis by simp
  qed
qed

lemma basename_last_segment: "basename p = last_segment p"
  by (simp add: basename_def last_segment_def last_split_on)

text \<open>
  Claim C5. The file name is the \<^verbatim>\<open>filename=\<close> parameter of the
  \<^verbatim>\<open>Content-Disposition\<close> header (found in any letter case, its quotes stripped)
  when there is one, otherwise the last path segment of the URL when it is not
  empty, otherwise \<^verbatim>\<open>downloaded.file\<close>; and the function never raises. With the
  header \<^verbatim>\<open>attachment; filename="weights.bin"\<close> the name is \<^verbatim>\<open>weights.bin\<close> for
  every URL (the witness below).
\<close>

theorem get_filename_from_response_precedence:
  "get_filename_from_response env response url =
     Inr (case cd_filename response of
            Some f \<Rightarrow> f
          | None \<Rightarrow>
              if last_segment (url_path env url) \<noteq> [] then last_segment (url_path env url)
              else ''downloaded.file'')"
proof (cases "header_get (headers response) ''Content-Disposition''")
  case None
  then show ?thesis
    by (simp add: get_filename_from_response_def cd_filename_def basename_last_segment Let_def)
next
  case (Some cd)
  show ?thesis
  proof (cases "cd = []")
    case True
    with Some show ?thesis
      by (simp add: get_filename_from_response_def cd_filename_def basename_last_segment Let_def
          strip_chars_def startswith_def lower_def)
  next
    case False
    with Some show ?thesis
      by (simp add: get_filename_from_response_def cd_filename_def basename_last_segment Let_def
          filename_param_find split: option.splits)
  qed
qed


theorem get_filename_from_response_precedence_witness:
  "(\<forall>env b f url.
      get_filename_from_response env
        \<lparr>headers = [(''content-disposition'',
                     ''attachment; FileName='' @ [dquote] @ ''weights.bin'' @ [dquote])],
         body = b, fault = f\<rparr> url = Inr ''weights.bin'') \<and>
   get_filename_from_response demo_env \<lparr>headers = [], body = [], fault = None\<rparr>
     ''https://example.org/files/blob'' = Inr ''blob'' \<and>
   get_filename_from_response (demo_env\<lparr>url_path := (\<lambda>u. ''/files/'')\<rparr>)
     \<lparr>headers = [], body = [], fault = None\<rparr> ''https://example.org/files/'' = Inr ''downloaded.file''"
proof -
  have a: "cd_filename \<lparr>headers = [(''content-disposition'',
                     ''attachment; FileName='' @ [dquote] @ ''weights.bin'' @ [dquote])],
         body = b, fault = f\<rparr> = Some ''weights.bin''" for b f
    by (simp add: cd_filename_def header_get_def lower_def lower_char_def strip_chars_def
        is_space_def startswith_def dquote_def)
  have b: "cd_filename \<lparr>headers = [], body = [], fault = None\<rparr> = None"
    by (simp add: cd_filename_def header_get_def)
  have c: "last_segment ''/files/blob'' = ''blob''" "last_segment ''/files/'' = []"
    by (simp_all add: last_segment_def)
  have p1: "get_filename_from_response env
        \<lparr>headers = [(''content-disposition'',
                     ''attachment; FileName='' @ [dquote] @ ''weights.bin'' @ [dquote])],
         body = b, fault = f\<rparr> url = Inr ''weights.bin''" for env b f url
    unfolding get_filename_from_response_precedence a by simp
  have p2: "get_filename_from_response demo_env \<lparr>headers = [], body = [], fault = None\<rparr>
     ''https://example.org/files/blob'' = Inr ''blob''"
    unfolding get_filename_from_response_precedence b by (simp add: c demo_env_def)
  have p3: "get_filename_from_response (demo_env\<lparr>url_path := (\<lambda>u. ''/files/'')\<rparr>)
     \<lparr>headers = [], body = [], fault = None\<rparr> ''https://example.org/files/'' = Inr ''downloaded.file''"
    unfolding get_filename_from_response_precedence b by (simp add: c)
  from p1 p2 p3 show ?thesis by blast
qed

declare read_loop.simps [simp del]

lemma CHUNK_SIZE_pos: "0 < CHUNK_SIZE"
  by (simp add: CHUNK_SIZE_def)

lemma read_loop_Nil: "read_loop name total_len target flt [] downloaded w = (flt, w)"
  by (subst read_loop.simps) simp

lemma read_loop_step:
  assumes "rest \<noteq> []"
  shows "read_loop name total_len target flt rest downloaded w =
     read_loop name total_len target flt (drop CHUNK_SIZE rest)
       (downloaded + length (take CHUNK_SIZE rest))
       ((write_chunk target (take CHUNK_SIZE rest) w)
          \<lparr>stdout := stdout w @
             [progress name (downloaded + length (take CHUNK_SIZE rest)) total_len]\<rparr>)"
proof -
  from assms CHUNK_SIZE_pos have "take CHUNK_SIZE rest \<noteq> []" by simp
  then show ?thesis by (subst read_loop.simps) (simp add: Let_def)
qed

lemma read_loop_fst: "fst (read_loop name total_len target flt rest downloaded w) = flt"
proof (induction name total_len target flt rest downloaded w rule: read_loop.induct)
  case (1 name total_len target flt rest downloaded w)
  show ?case
  proof (cases "rest = []")
    case True
    then show ?thesis by (simp add: read_loop_Nil)
  next
    case False
    with CHUNK_SIZE_pos have ne: "take CHUNK_SIZE rest \<noteq> []" by simp
    from "1.IH" [OF refl ne] show ?thesis by (simp add: read_loop_step [OF False])
  qed
qed

lemma read_loop_fs:
  "fs w target = Some (File c) \<Longrightarrow>
     fs (snd (read_loop name total_len target flt rest downloaded w))
       = (fs w)(target \<mapsto> File (c @ rest))"
proof (induction name total_len target flt rest downloaded w arbitrary: c rule: read_loop.induct)
  case (1 name total_len target flt rest downloaded w)
  show ?case
  proof (cases "rest = []")
    case True
    with "1.prems" show ?thesis by (simp add: read_loop_Nil map_upd_triv)
  next
    case False
    with CHUNK_SIZE_pos have ne: "take CHUNK_SIZE rest \<noteq> []" by simp
    let ?w = "(write_chunk target (take CHUNK_SIZE rest) w)
          \<lparr>stdout := stdout w @
             [progress name (downloaded + length (take CHUNK_SIZE rest)) total_len]\<rparr>"
    have b: "fs ?w = (fs w)(target \<mapsto> File (c @ take CHUNK_SIZE rest))"
      using "1.prems" by (simp add: write_chunk_def)
    then have a: "fs ?w target = Some (File (c @ take CHUNK_SIZE rest))" by simp
    have "fs (snd (read_loop name total_len target flt (drop CHUNK_SIZE rest)
             (downloaded + length (take CHUNK_SIZE rest)) ?w))
          = (fs ?w)(target \<mapsto> File ((c @ take CHUNK_SIZE rest) @ drop CHUNK_SIZE rest))"
      by (rule "1.IH" [OF refl ne a])
    also have "\<dots> = (fs w)(target \<mapsto> File (c @ rest))"
      unfolding b by simp
    finally show ?thesis
      unfolding read_loop_step [OF False] .
  qed
qed

lemma read_loop_frame:
  "tokens_file (snd (read_loop name total_len target flt rest downloaded w)) = tokens_file w \<and>
   index_file (snd (read_loop name total_len target flt rest downloaded w)) = index_file w \<and>
   requested (snd (read_loop name total_len target flt rest downloaded w)) = requested w \<and>
   stderr (snd (read_loop name total_len target flt rest downloaded w)) = stderr w"
proof (induction name total_len target flt rest downloaded w rule: read_loop.induct)
  case (1 name total_len target flt rest downloaded w)
  show ?case
  proof (cases "rest = []")
    case True
    then show ?thesis by (simp add: read_loop_Nil)
  next
    case False
    with CHUNK_SIZE_pos have ne: "take CHUNK_SIZE rest \<noteq> []" by simp
    from "1.IH" [OF refl ne] show ?thesis
      by (simp add: read_loop_step [OF False] write_chunk_def)
  qed
qed

lemma read_loop_stdout:
  "\<exists>ps. stdout (snd (read_loop name total_len target flt rest downloaded w)) = stdout w @ ps"
proof (induction name total_len target flt rest downloaded w rule: read_loop.induct)
  case (1 name total_len target flt rest downloaded w)
  show ?case
  proof (cases "rest = []")
    case True
    then show ?thesis by (simp add: read_loop_Nil)
  next
    case False
    with CHUNK_SIZE_pos have ne: "take CHUNK_SIZE rest \<noteq> []" by simp
    from "1.IH" [OF refl ne] obtain ps where
      "stdout (snd (read_loop name total_len target flt (drop CHUNK_SIZE rest)
       (downloaded + length (take CHUNK_SIZE rest))
       ((write_chunk target (take CHUNK_SIZE rest) w)
          \<lparr>stdout := stdout w @
             [progress name (downloaded + length (take CHUNK_SIZE rest)) total_len]\<rparr>)))
       = (stdout w @ [progress name (downloaded + length (take CHUNK_SIZE rest)) total_len]) @ ps"
      by (auto simp: write_chunk_def)
    then show ?thesis by (simp add: read_loop_step [OF False])
  qed
qed


lemma read_loop_frameD:
  assumes "read_loop name total_len target flt rest downloaded w = (r, w')"
  shows "r = flt" and "tokens_file w' = tokens_file w" and "index_file w' = index_file w"
    and "requested w' = requested w" and "stderr w' = stderr w"
  using assms read_loop_fst [of name total_len target flt rest downloaded w]
    read_loop_frame [of name total_len target flt rest downloaded w]
  by simp_all


lemma fold_put_dir: "fold put_dir ps f p = (if p \<in> set ps then Some Dir else f p)"
  by (induction ps arbitrary: f) (auto simp: put_dir_def)

lemma ensure_parent_dir_frame:
  assumes "ensure_parent_dir env subdirectory w = Inr w1"
  shows "w1 = w\<lparr>fs := fold put_dir (subdirectory # path_parents env subdirectory) (fs w)\<rparr>"
  using assms by (simp add: ensure_parent_dir_def split: if_splits)

lemma ensure_parent_dir_keeps:
  assumes mk: "ensure_parent_dir env subdirectory w = Inr w1"
  shows "tokens_file w1 = tokens_file w" and "index_file w1 = index_file w"
    and "requested w1 = requested w" and "stdout w1 = stdout w" and "stderr w1 = stderr w"
  unfolding ensure_parent_dir_frame [OF mk] by simp_all

lemma ensure_parent_dir_file:
  assumes mk: "ensure_parent_dir env subdirectory w = Inr w1"
    and f: "fs w t = Some (File c)"
  shows "fs w1 t = Some (File c)"
proof -
  from mk have "\<not> list_ex (\<lambda>p. is_file (fs w p)) (subdirectory # path_parents env subdirectory)"
    by (simp add: ensure_parent_dir_def split: if_splits)
  then have "\<forall>p\<in>set (subdirectory # path_parents env subdirectory). \<not> is_file (fs w p)"
    by (simp add: list_ex_iff)
  moreover from f have "is_file (fs w t)" by (simp add: is_file_def)
  ultimately have "t \<notin> set (subdirectory # path_parents env subdirectory)" by blast
  then have "fold put_dir (subdirectory # path_parents env subdirectory) (fs w) t = fs w t"
    unfolding fold_put_dir by (rule if_not_P)
  moreover have "fs w1 = fold put_dir (subdirectory # path_parents env subdirectory) (fs w)"
    by (subst ensure_parent_dir_frame [OF mk]) simp
  ultimately show ?thesis using f by (simp only:)
qed

lemma open_wb_ok:
  assumes nd: "fs w target \<noteq> Some Dir"
    and pd: "fs w target = None \<longrightarrow> list_all (\<lambda>p. fs w p = Some Dir) (path_parents env target)"
  shows "open_wb env target w = Inr (w\<lparr>fs := (fs w)(target \<mapsto> File [])\<rparr>)"
proof (cases "fs w target")
  case None
  with pd show ?thesis by (simp add: open_wb_def)
next
  case (Some n)
  with nd show ?thesis by (cases n) (simp_all add: open_wb_def)
qed

lemma open_wb_keeps:
  assumes "open_wb env target w = Inr w1"
  shows "tokens_file w1 = tokens_file w" and "index_file w1 = index_file w"
    and "requested w1 = requested w"
  using assms
  by (auto simp: open_wb_def split: option.splits node.splits if_splits)

lemma fetch_skip:
  assumes "get_filename_from_response env response url = Inr filename"
    and "fs w (joinpath env subdirectory filename) \<noteq> None" and "\<not> force"
  shows "fetch env name url subdirectory force response w =
     (Inr (Skipped (joinpath env subdirectory filename)),
      w\<lparr>stdout := stdout w @ [Skipping name (joinpath env subdirectory filename)]\<rparr>)"
  using assms by (simp add: fetch_def Let_def)

lemma fetch_download:
  assumes fn: "get_filename_from_response env response url = Inr filename"
    and tg: "target = joinpath env subdirectory filename"
    and ns: "force \<or> fs w target = None"
    and nd: "fs w target \<noteq> Some Dir"
    and pd: "fs w target = None \<longrightarrow> list_all (\<lambda>p. fs w p = Some Dir) (path_parents env target)"
    and cl: "content_length env response = Inr total_len"
    and nf: "fault response = None"
  shows "\<exists>w'. fetch env name url subdirectory force response w = (Inr (Downloaded target), w') \<and>
           fs w' = (fs w)(target \<mapsto> File (body response)) \<and>
           tokens_file w' = tokens_file w \<and> index_file w' = index_file w \<and>
           requested w' = requested w \<and> stderr w' = stderr w \<and>
           (\<exists>ps. stdout w' = stdout w @ ps @ [Done name target])"
proof -
  let ?w1 = "w\<lparr>fs := (fs w)(target \<mapsto> File [])\<rparr>"
  from nd pd have op: "open_wb env target w = Inr ?w1" by (rule open_wb_ok)
  obtain r w2 where rl: "read_loop name total_len target (fault response) (body response) 0 ?w1 = (r, w2)"
    by (cases "read_loop name total_len target (fault response) (body response) 0 ?w1") blast
  from read_loop_frameD [OF rl] nf have r: "r = None"
    and fr: "tokens_file w2 = tokens_file w" "index_file w2 = index_file w"
      "requested w2 = requested w" "stderr w2 = stderr w"
    by simp_all
  have "fs ?w1 target = Some (File [])" by simp
  from read_loop_fs [OF this, of name total_len "fault response" "body response" 0] rl
  have f: "fs w2 = (fs w)(target \<mapsto> File (body response))" by simp
  from read_loop_stdout [of name total_len target "fault response" "body response" 0 ?w1] rl
  obtain ps where so: "stdout w2 = stdout w @ ps" by auto
  have "fetch env name url subdirectory force response w =
          (Inr (Downloaded target), w2\<lparr>stdout := stdout w2 @ [Done name target]\<rparr>)"
    using fn tg ns cl op rl r by (auto simp: fetch_def Let_def)
  with f fr so show ?thesis by simp
qed

lemma fetch_frame:
  assumes "fetch env name url subdirectory force response w = (r, w')"
  shows "tokens_file w' = tokens_file w \<and> index_file w' = index_file w \<and>
         requested w' = requested w"
proof (cases "get_filename_from_response env response url")
  case (Inl e)
  with assms show ?thesis by (simp add: fetch_def)
next
  case (Inr filename)
  let ?t = "joinpath env subdirectory filename"
  show ?thesis
  proof (cases "fs w ?t \<noteq> None \<and> \<not> force")
    case True
    with assms Inr show ?thesis by (auto simp: fetch_def Let_def)
  next
    case ns: False
    show ?thesis
    proof (cases "content_length env response")
      case (Inl e)
      with assms Inr ns show ?thesis by (auto simp: fetch_def Let_def)
    next
      case cl: (Inr total_len)
      show ?thesis
      proof (cases "open_wb env ?t w")
        case (Inl e)
        with assms Inr ns cl show ?thesis by (auto simp: fetch_def Let_def)
      next
        case op: (Inr w1)
        note w1 = open_wb_keeps [OF op]
        obtain r2 w2 where rl:
          "read_loop name total_len ?t (fault response) (body response) 0 w1 = (r2, w2)"
          by (cases "read_loop name total_len ?t (fault response) (body response) 0 w1") blast
        from read_loop_frameD [OF rl] w1 have
          "tokens_file w2 = tokens_file w" "index_file w2 = index_file w"
          "requested w2 = requested w"
          by simp_all
        with assms Inr ns cl op rl show ?thesis
          by (auto simp: fetch_def Let_def split: option.splits)
      qed
    qed
  qed
qed

lemma unzip_in_place_frame:
  assumes "unzip_in_place env name subdirectory target w = (r, w')"
  shows "tokens_file w' = tokens_file w \<and> index_file w' = index_file w \<and>
         requested w' = requested w"
  using assms
  by (auto simp: unzip_in_place_def extractall_def unlink_def write_entries_def
      split: if_splits option.splits node.splits prod.splits sum.splits)

lemma download_file_no_request:
  assumes "make_request env (load_tokens w) url = Inl e"
  shows "download_file env name url subdirectory force unzip w = (Inl e, w)"
  using assms by (simp add: download_file_def Let_def)

lemma download_file_no_directory:
  assumes "make_request env (load_tokens w) url = Inr req"
    and "ensure_parent_dir env subdirectory w = Inl e"
  shows "download_file env name url subdirectory force unzip w = (Inl e, w)"
  using assms by (simp add: download_file_def Let_def)

lemma download_file_opened:
  assumes rq: "make_request env (load_tokens w) url = Inr req"
    and mk: "ensure_parent_dir env subdirectory w = Inr w1"
  shows "\<exists>r w'. download_file env name url subdirectory force unzip w = (r, w') \<and>
           tokens_file w' = tokens_file w \<and> index_file w' = index_file w \<and>
           requested w' = requested w @ [req]"
proof -
  let ?w2 = "w1\<lparr>requested := requested w1 @ [req]\<rparr>"
  from ensure_parent_dir_keeps [OF mk] have w2:
    "tokens_file ?w2 = tokens_file w" "index_file ?w2 = index_file w"
    "requested ?w2 = requested w @ [req]"
    by simp_all
  show ?thesis
  proof (cases "urlopen env req")
    case (Inl e)
    with rq mk w2 show ?thesis by (simp add: download_file_def Let_def)
  next
    case op: (Inr response)
    obtain r3 w3 where ft: "fetch env name url subdirectory force response ?w2 = (r3, w3)"
      by (cases "fetch env name url subdirectory force response ?w2") blast
    from fetch_frame [OF ft] w2 have w3:
      "tokens_file w3 = tokens_file w" "index_file w3 = index_file w"
      "requested w3 = requested w @ [req]"
      by simp_all
    show ?thesis
    proof (cases r3)
      case (Inl e)
      with rq mk op ft w3 show ?thesis by (simp add: download_file_def Let_def)
    next
      case (Inr got)
      show ?thesis
      proof (cases got)
        case (Skipped target)
        with rq mk op ft w3 Inr show ?thesis by (simp add: download_file_def Let_def)
      next
        case (Downloaded target)
        show ?thesis
        proof (cases unzip)
          case False
          with rq mk op ft w3 Inr Downloaded show ?thesis
            by (simp add: download_file_def Let_def)
        next
          case True
          obtain r4 w4 where u: "unzip_in_place env name subdirectory target w3 = (r4, w4)"
            by (cases "unzip_in_place env name subdirectory target w3") blast
          from unzip_in_place_frame [OF u] w3 have
            "tokens_file w4 = tokens_file w" "index_file w4 = index_file w"
            "requested w4 = requested w @ [req]"
            by simp_all
          with True rq mk op ft Inr Downloaded u show ?thesis
            by (simp add: download_file_def Let_def)
        qed
      qed
    qed
  qed
qed

lemma download_file_requested:
  assumes rq: "make_request env (load_tokens w) url = Inr req"
    and mk: "ensure_parent_dir env subdirectory w = Inr w1"
  shows "requested (snd (download_file env name url subdirectory force unzip w))
           = requested w @ [req]"
  using download_file_opened [OF rq mk, of name force unzip] by auto


lemma download_file_skipped:
  assumes rq: "make_request env (load_tokens w) url = Inr req"
    and mk: "ensure_parent_dir env subdirectory w = Inr w1"
    and op: "urlopen env req = Inr response"
    and fn: "get_filename_from_response env response url = Inr filename"
    and tg: "target = joinpath env subdirectory filename"
    and ex: "fs w1 target \<noteq> None"
    and nf: "\<not> force"
  shows "download_file env name url subdirectory force unzip w =
     (Inr target,
      w1\<lparr>requested := requested w1 @ [req],
         stdout := stdout w1 @ [Skipping name target]\<rparr>)"
proof -
  let ?w2 = "w1\<lparr>requested := requested w1 @ [req]\<rparr>"
  from ex tg have "fs ?w2 (joinpath env subdirectory filename) \<noteq> None" by simp
  from fetch_skip [OF fn this nf, where name = name] rq mk op tg show ?thesis
    by (simp add: download_file_def Let_def)
qed

lemma download_file_downloaded:
  assumes rq: "make_request env (load_tokens w) url = Inr req"
    and mk: "ensure_parent_dir env subdirectory w = Inr w1"
    and op: "urlopen env req = Inr response"
    and fn: "get_filename_from_response env response url = Inr filename"
    and tg: "target = joinpath env subdirectory filename"
    and ns: "force \<or> fs w1 target = None"
    and nd: "fs w1 target \<noteq> Some Dir"
    and pd: "fs w1 target = None \<longrightarrow>
               list_all (\<lambda>p. fs w1 p = Some Dir) (path_parents env target)"
    and cl: "content_length env response = Inr total_len"
    and nf: "fault response = None"
  shows "\<exists>w3. download_file env name url subdirectory force unzip w =
              (if unzip then unzip_in_place env name subdirectory target w3 else (Inr target, w3)) \<and>
           fs w3 = (fs w1)(target \<mapsto> File (body response)) \<and>
           stderr w3 = stderr w \<and>
           (\<exists>ps. stdout w3 = stdout w @ ps @ [Done name target])"
proof -
  let ?w2 = "w1\<lparr>requested := requested w1 @ [req]\<rparr>"
  from ns have ns2: "force \<or> fs ?w2 target = None" by simp
  from nd have nd2: "fs ?w2 target \<noteq> Some Dir" by simp
  from pd have pd2: "fs ?w2 target = None \<longrightarrow>
               list_all (\<lambda>p. fs ?w2 p = Some Dir) (path_parents env target)" by simp
  from fetch_download [OF fn tg ns2 nd2 pd2 cl nf, where name = name] obtain w3 ps where
    ft: "fetch env name url subdirectory force response ?w2 = (Inr (Downloaded target), w3)"
    and f: "fs w3 = (fs ?w2)(target \<mapsto> File (body response))"
    and se: "stderr w3 = stderr ?w2"
    and so: "stdout w3 = stdout ?w2 @ ps @ [Done name target]"
    by blast
  note w1 = ensure_parent_dir_keeps [OF mk]
  have "download_file env name url subdirectory force unzip w =
          (if unzip then unzip_in_place env name subdirectory target w3 else (Inr target, w3))"
    using rq mk op ft by (simp add: download_file_def Let_def)
  moreover from f have "fs w3 = (fs w1)(target \<mapsto> File (body response))" by simp
  moreover from se w1 have "stderr w3 = stderr w" by simp
  moreover from so w1 have "\<exists>ps. stdout w3 = stdout w @ ps @ [Done name target]" by simp
  ultimately show ?thesis by blast
qed





lemma demo_filename:
  "get_filename_from_response env demo_response u = Inr ''weights.bin''"
  by (simp add: get_filename_from_response_def demo_response_def header_get_def lower_def
      lower_char_def strip_chars_def is_space_def startswith_def dquote_def split_once_def)

lemma nested_filename:
  "get_filename_from_response env nested_response u = Inr ''sub/x.bin''"
  by (simp add: get_filename_from_response_def nested_response_def header_get_def lower_def
      lower_char_def strip_chars_def is_space_def startswith_def dquote_def split_once_def)

lemma demo_parents:
  "path_parents demo_env ''models'' = []"
  "path_parents demo_env ''models/weights.bin'' = [''models'']"
  "path_parents demo_env ''models/sub/x.bin'' = [''models/sub'', ''models'']"
  by (simp_all add: demo_env_def slash_parents_def)


lemma demo_mkdir:
  "ensure_parent_dir demo_env ''models'' demo_world
     = Inr (demo_world\<lparr>fs := (fs demo_world)(''models'' \<mapsto> Dir)\<rparr>)"
  by (simp add: ensure_parent_dir_def demo_parents is_file_def put_dir_def demo_world_def)

lemma empty_mkdir:
  "ensure_parent_dir demo_env ''models'' empty_world
     = Inr (empty_world\<lparr>fs := (fs empty_world)(''models'' \<mapsto> Dir)\<rparr>)"
  by (simp add: ensure_parent_dir_def demo_parents is_file_def put_dir_def empty_world_def)


lemma demo_content_length: "content_length env demo_response = Inr None"
  by (simp add: content_length_def demo_response_def header_get_def lower_def lower_char_def)

lemma demo_urlopen: "urlopen demo_env r = Inr demo_response"
  by (simp add: demo_env_def)


lemma demo_target: "''models/weights.bin'' = joinpath demo_env ''models'' ''weights.bin''"
  by (simp add: demo_env_def)


lemma demo_existing: "fs demo_world ''models/weights.bin'' = Some (File ''old'')"
  by (simp add: demo_world_def)

lemma demo_fault: "fault demo_response = None" "body demo_response = ''PK-bytes''"
  by (simp_all add: demo_response_def)

lemma demo_request:
  "make_request demo_env (load_tokens demo_world) ''https://example.org/files/blob'' =
     Inr \<lparr>full_url = ''https://example.org/files/blob'', redirected_hdrs = [],
          unredirected_hdrs = [(''Authorization'', ''Bearer s3cret'')]\<rparr>"
  by (simp add: make_request_def demo_env_def load_tokens_def demo_world_def startswith_def)

lemma empty_request:
  "make_request demo_env (load_tokens empty_world) ''https://example.org/files/blob'' =
     Inr \<lparr>full_url = ''https://example.org/files/blob'', redirected_hdrs = [],
          unredirected_hdrs = []\<rparr>"
  by (simp add: make_request_def demo_env_def load_tokens_def empty_world_def startswith_def)


lemma schemeless_request:
  "make_request demo_env tokens ''notaurl'' = Inl ValueError"
  by (simp add: make_request_def demo_env_def startswith_def)

text \<open>
  Claim C4. Let the request be built and answered and the derived target be a
  file that exists. Without \<^verbatim>\<open>force\<close>, \<open>download_file\<close> returns the target,
  leaves the file and every other file as they were, and prints the skip notice
  and nothing else. With \<^verbatim>\<open>force\<close>, when the body arrives whole, the target holds
  the body when the download is done (after which the archive step runs if it was
  asked for).
\<close>

theorem download_file_existing_target:
  assumes rq: "make_request env (load_tokens w) url = Inr req"
    and mk: "ensure_parent_dir env subdirectory w = Inr w1"
    and op: "urlopen env req = Inr response"
    and fn: "get_filename_from_response env response url = Inr filename"
    and tg: "target = joinpath env subdirectory filename"
    and ex: "fs w target = Some (File old)"
  shows "(\<not> force \<longrightarrow>
            (\<exists>w'. download_file env name url subdirectory force unzip w = (Inr target, w') \<and>
                  fs w' = fs w1 \<and> fs w' target = Some (File old) \<and>
                  stdout w' = stdout w @ [Skipping name target] \<and> stderr w' = stderr w)) \<and>
         (force \<and> content_length env response = Inr total_len \<and> fault response = None \<longrightarrow>
            (\<exists>w'. fs w' target = Some (File (body response)) \<and>
                  download_file env name url subdirectory force unzip w =
                    (if unzip then unzip_in_place env name subdirectory target w'
                     else (Inr target, w'))))"
proof -
  note w1 = ensure_parent_dir_keeps [OF mk]
  from mk ex have ex1: "fs w1 target = Some (File old)" by (rule ensure_parent_dir_file)
  have skip: "\<exists>w'. download_file env name url subdirectory force unzip w = (Inr target, w') \<and>
                  fs w' = fs w1 \<and> fs w' target = Some (File old) \<and>
                  stdout w' = stdout w @ [Skipping name target] \<and> stderr w' = stderr w"
    if nf: "\<not> force"
  proof -
    from ex1 have "fs w1 target \<noteq> None" by simp
    from download_file_skipped [OF rq mk op fn tg this nf, where name = name and unzip = unzip]
      ex1 w1 show ?thesis by simp
  qed
  have over: "\<exists>w'. fs w' target = Some (File (body response)) \<and>
                  download_file env name url subdirectory force unzip w =
                    (if unzip then unzip_in_place env name subdirectory target w'
                     else (Inr target, w'))"
    if f: "force" and cl: "content_length env response = Inr total_len"
      and nf: "fault response = None"
  proof -
    from f have ns: "force \<or> fs w1 target = None" by simp
    from ex1 have nd: "fs w1 target \<noteq> Some Dir" by simp
    from ex1 have pd: "fs w1 target = None \<longrightarrow>
               list_all (\<lambda>p. fs w1 p = Some Dir) (path_parents env target)" by simp
    from download_file_downloaded [OF rq mk op fn tg ns nd pd cl nf,
        where name = name and unzip = unzip]
    obtain w3 where
      "download_file env name url subdirectory force unzip w =
              (if unzip then unzip_in_place env name subdirectory target w3 else (Inr target, w3))"
      and "fs w3 = (fs w1)(target \<mapsto> File (body response))"
      by blast
    then show ?thesis by (intro exI [of _ w3]) simp
  qed
  from skip over show ?thesis by blast
qed

theorem download_file_existing_target_witness:
  "fst (download_file demo_env ''m'' ''https://example.org/files/blob'' ''models'' False False
          demo_world) = Inr ''models/weights.bin'' \<and>
   fs (snd (download_file demo_env ''m'' ''https://example.org/files/blob'' ''models'' False False
          demo_world)) ''models/weights.bin'' = Some (File ''old'') \<and>
   stdout (snd (download_file demo_env ''m'' ''https://example.org/files/blob'' ''models'' False False
          demo_world)) = [Skipping ''m'' ''models/weights.bin''] \<and>
   fst (download_file demo_env ''m'' ''https://example.org/files/blob'' ''models'' True False
          demo_world) = Inr ''models/weights.bin'' \<and>
   fs (snd (download_file demo_env ''m'' ''https://example.org/files/blob'' ''models'' True False
          demo_world)) ''models/weights.bin'' = Some (File ''PK-bytes'')"
proof -
  note t = download_file_existing_target [OF demo_request demo_mkdir demo_urlopen demo_filename
      demo_target demo_existing, where name = "''m''" and unzip = False and total_len = None]
  from t [where force = False] obtain w' where
    "download_file demo_env ''m'' ''https://example.org/files/blob'' ''models'' False False
       demo_world = (Inr ''models/weights.bin'', w')"
    and "fs w' ''models/weights.bin'' = Some (File ''old'')"
    and "stdout w' = stdout demo_world @ [Skipping ''m'' ''models/weights.bin'']"
    by blast
  then have a: "fst (download_file demo_env ''m'' ''https://example.org/files/blob'' ''models''
        False False demo_world) = Inr ''models/weights.bin''"
    "fs (snd (download_file demo_env ''m'' ''https://example.org/files/blob'' ''models'' False False
          demo_world)) ''models/weights.bin'' = Some (File ''old'')"
    "stdout (snd (download_file demo_env ''m'' ''https://example.org/files/blob'' ''models'' False
          False demo_world)) = [Skipping ''m'' ''models/weights.bin'']"
    by (simp_all add: demo_world_def)
  from t [where force = True] demo_content_length demo_fault obtain w' where
    "fs w' ''models/weights.bin'' = Some (File ''PK-bytes'')"
    and "download_file demo_env ''m'' ''https://example.org/files/blob'' ''models'' True False
       demo_world = (Inr ''models/weights.bin'', w')"
    by auto
  then have b: "fst (download_file demo_env ''m'' ''https://example.org/files/blob'' ''models''
        True False demo_world) = Inr ''models/weights.bin''"
    "fs (snd (download_file demo_env ''m'' ''https://example.org/files/blob'' ''models'' True False
          demo_world)) ''models/weights.bin'' = Some (File ''PK-bytes'')"
    by simp_all
  from a b show ?thesis by simp
qed

lemma empty_target_absent:
  "fs (empty_world\<lparr>fs := (fs empty_world)(''models'' \<mapsto> Dir)\<rparr>) ''models/weights.bin'' = None"
  by (simp add: empty_world_def)

lemma empty_target_parents:
  "list_all (\<lambda>p. fs (empty_world\<lparr>fs := (fs empty_world)(''models'' \<mapsto> Dir)\<rparr>) p = Some Dir)
     (path_parents demo_env ''models/weights.bin'')"
  by (simp add: demo_parents)


lemma demo_not_zip: "\<not> is_zipfile demo_env c"
  by (simp add: demo_env_def)



lemma nested_content_length: "content_length env nested_response = Inr None"
  by (simp add: content_length_def nested_response_def header_get_def lower_def lower_char_def)

text \<open>
  A file name with a slash: the directory \<^verbatim>\<open>models/sub\<close> is not made by line 108,
  so line 123 fails and nothing is written.
\<close>

lemma nested_target_not_opened:
  "download_file nested_env ''m'' ''https://example.org/files/blob'' ''models'' False True
     empty_world
   = (Inl OSError,
      empty_world\<lparr>fs := [''models'' \<mapsto> Dir],
                  requested := [\<lparr>full_url = ''https://example.org/files/blob'',
                                  redirected_hdrs = [], unredirected_hdrs = []\<rparr>]\<rparr>)"
  by (simp add: download_file_def Let_def make_request_def nested_env_def demo_env_def
      load_tokens_def empty_world_def startswith_def ensure_parent_dir_def slash_parents_def
      is_file_def put_dir_def fetch_def nested_filename nested_content_length open_wb_def)

text \<open>
  Claim C6. Let extraction be requested and the target be downloaded (the
  request built and answered, the transfer not skipped, the target not a
  directory and the directories above it there, the body arrived whole). When
  the body is no archive, \<open>download_file\<close> returns the target, the target holds the
  body, no other file is changed or removed, and the warning is printed on the
  error stream after the completion line of the download.
\<close>

theorem download_file_invalid_archive:
  assumes rq: "make_request env (load_tokens w) url = Inr req"
    and mk: "ensure_parent_dir env subdirectory w = Inr w1"
    and op: "urlopen env req = Inr response"
    and fn: "get_filename_from_response env response url = Inr filename"
    and tg: "target = joinpath env subdirectory filename"
    and ns: "force \<or> fs w1 target = None"
    and nd: "fs w1 target \<noteq> Some Dir"
    and pd: "list_all (\<lambda>p. fs w1 p = Some Dir) (path_parents env target)"
    and cl: "content_length env response = Inr total_len"
    and nf: "fault response = None"
    and nz: "\<not> is_zipfile env (body response)"
  shows "\<exists>w'. download_file env name url subdirectory force True w = (Inr target, w') \<and>
           fs w' = (fs w1)(target \<mapsto> File (body response)) \<and>
           stderr w' = stderr w @ [NotAZip name target] \<and>
           (\<exists>ps. stdout w' = stdout w @ ps @ [Done name target])"
proof -
  from pd have pd': "fs w1 target = None \<longrightarrow>
               list_all (\<lambda>p. fs w1 p = Some Dir) (path_parents env target)" by simp
  from download_file_downloaded [OF rq mk op fn tg ns nd pd' cl nf,
      where name = name and unzip = True]
  obtain w3 ps where
    d: "download_file env name url subdirectory force True w =
          unzip_in_place env name subdirectory target w3"
    and f: "fs w3 = (fs w1)(target \<mapsto> File (body response))"
    and se: "stderr w3 = stderr w"
    and so: "stdout w3 = stdout w @ ps @ [Done name target]"
    by auto
  from f nz have "\<not> path_is_zipfile env target w3" by (simp add: path_is_zipfile_def)
  then have "unzip_in_place env name subdirectory target w3 =
               (Inr target, w3\<lparr>stderr := stderr w3 @ [NotAZip name target]\<rparr>)"
    by (simp add: unzip_in_place_def)
  with d f se so show ?thesis by simp
qed

theorem download_file_invalid_archive_witness:
  "fst (download_file demo_env ''m'' ''https://example.org/files/blob'' ''models'' False True
          empty_world) = Inr ''models/weights.bin'' \<and>
   fs (snd (download_file demo_env ''m'' ''https://example.org/files/blob'' ''models'' False True
          empty_world)) ''models/weights.bin'' = Some (File ''PK-bytes'') \<and>
   stderr (snd (download_file demo_env ''m'' ''https://example.org/files/blob'' ''models'' False True
          empty_world)) = [NotAZip ''m'' ''models/weights.bin'']"
proof -
  have nd: "fs (empty_world\<lparr>fs := (fs empty_world)(''models'' \<mapsto> Dir)\<rparr>) ''models/weights.bin''
              \<noteq> Some Dir"
    by (simp add: empty_world_def)
  from download_file_invalid_archive [OF empty_request empty_mkdir demo_urlopen demo_filename
      demo_target disjI2 [OF empty_target_absent] nd empty_target_parents demo_content_length
      demo_fault(1), where name = "''m''"] demo_not_zip
  obtain w' where
    "download_file demo_env ''m'' ''https://example.org/files/blob'' ''models'' False True
       empty_world = (Inr ''models/weights.bin'', w')"
    and "fs w' = (fs (empty_world\<lparr>fs := (fs empty_world)(''models'' \<mapsto> Dir)\<rparr>))
                   (''models/weights.bin'' \<mapsto> File (body demo_response))"
    and "stderr w' = stderr empty_world @ [NotAZip ''m'' ''models/weights.bin'']"
    by blast
  then show ?thesis by (simp add: demo_fault empty_world_def)
qed



text \<open>
  Claim C8. When \<^verbatim>\<open>Request(url)\<close> raises, \<open>download_file\<close> fails with that
  error and sends nothing. Otherwise the request has the header
  \<^verbatim>\<open>Authorization: Bearer <token>\<close> exactly when the token table has an entry under
  the host name of the URL, looked up as it is; the header is among those that do
  not follow a redirect, and the headers that do are empty; and \<open>download_file\<close>
  sends this request and no other, once the directory is made (it fails before
  sending when the directory cannot be made). (\<^verbatim>\<open>urlparse\<close> gives no empty host
  name: it gives none instead.)
\<close>

theorem download_file_authorization:
  assumes "url_hostname env url \<noteq> Some []"
  shows "case make_request env (load_tokens w) url of
           Inl e \<Rightarrow>
             url_type env url = None \<and>
             download_file env name url subdirectory force unzip w = (Inl e, w)
         | Inr req \<Rightarrow>
             full_url req = url \<and> redirected_hdrs req = [] \<and>
             unredirected_hdrs req =
               (case url_hostname env url of
                  None \<Rightarrow> []
                | Some h \<Rightarrow>
                    (case fmlookup (load_tokens w) h of
                       None \<Rightarrow> []
                     | Some t \<Rightarrow> [(''Authorization'', ''Bearer '' @ t)])) \<and>
             ((\<exists>t. (''Authorization'', ''Bearer '' @ t) \<in> set (unredirected_hdrs req))
                \<longleftrightarrow> (\<exists>h t. url_hostname env url = Some h \<and> fmlookup (load_tokens w) h = Some t)) \<and>
             (case ensure_parent_dir env subdirectory w of
                Inl e \<Rightarrow> download_file env name url subdirectory force unzip w = (Inl e, w)
              | Inr w1 \<Rightarrow>
                  requested (snd (download_file env name url subdirectory force unzip w))
                    = requested w @ [req])"
proof (cases "make_request env (load_tokens w) url")
  case (Inl e)
  then have "url_type env url = None"
    by (simp add: make_request_def Let_def split: option.splits)
  with Inl download_file_no_request [OF Inl, of name subdirectory force unzip]
  show ?thesis by simp
next
  case rq: (Inr req)
  have hdrs: "unredirected_hdrs req =
           (case url_hostname env url of
              None \<Rightarrow> []
            | Some h \<Rightarrow>
                (case fmlookup (load_tokens w) h of
                   None \<Rightarrow> []
                 | Some t \<Rightarrow> [(''Authorization'', ''Bearer '' @ t)]))"
    using assms rq by (auto simp: make_request_def Let_def split: option.splits)
  have iff: "(\<exists>t. (''Authorization'', ''Bearer '' @ t) \<in> set (unredirected_hdrs req))
          \<longleftrightarrow> (\<exists>h t. url_hostname env url = Some h \<and> fmlookup (load_tokens w) h = Some t)"
  proof (cases "url_hostname env url")
    case None
    with hdrs show ?thesis by simp
  next
    case (Some h)
    show ?thesis
    proof (cases "fmlookup (load_tokens w) h")
      case None
      with Some hdrs show ?thesis by simp
    next
      case (Some t)
      with \<open>url_hostname env url = Some h\<close> hdrs show ?thesis by simp
    qed
  qed
  have other: "full_url req = url" "redirected_hdrs req = []"
    using rq by (auto simp: make_request_def Let_def split: option.splits if_splits)
  have sent: "case ensure_parent_dir env subdirectory w of
                Inl e \<Rightarrow> download_file env name url subdirectory force unzip w = (Inl e, w)
              | Inr w1 \<Rightarrow>
                  requested (snd (download_file env name url subdirectory force unzip w))
                    = requested w @ [req]"
  proof (cases "ensure_parent_dir env subdirectory w")
    case (Inl e)
    from download_file_no_directory [OF rq Inl, of name force unzip] Inl show ?thesis by simp
  next
    case (Inr w1)
    from download_file_requested [OF rq Inr, of name force unzip] Inr show ?thesis by simp
  qed
  from rq other hdrs iff sent show ?thesis by simp
qed

lemma demo_hostname: "url_hostname demo_env u \<noteq> Some []"
  by (simp add: demo_env_def)

theorem download_file_authorization_witness:
  "requested (snd (download_file demo_env ''m'' ''https://example.org/files/blob'' ''models''
      False False demo_world))
     = [\<lparr>full_url = ''https://example.org/files/blob'', redirected_hdrs = [],
         unredirected_hdrs = [(''Authorization'', ''Bearer s3cret'')]\<rparr>] \<and>
   requested (snd (download_file demo_env ''m'' ''https://example.org/files/blob'' ''models''
      False False empty_world))
     = [\<lparr>full_url = ''https://example.org/files/blob'', redirected_hdrs = [],
         unredirected_hdrs = []\<rparr>] \<and>
   download_file demo_env ''m'' ''notaurl'' ''models'' False False empty_world
     = (Inl ValueError, empty_world)"
proof -
  note t = download_file_authorization [OF demo_hostname, where name = "''m''"
      and subdirectory = "''models''" and force = False and unzip = False]
  from t [where url = "''https://example.org/files/blob''" and w = demo_world]
  have a: "requested (snd (download_file demo_env ''m'' ''https://example.org/files/blob'' ''models''
      False False demo_world))
     = [\<lparr>full_url = ''https://example.org/files/blob'', redirected_hdrs = [],
         unredirected_hdrs = [(''Authorization'', ''Bearer s3cret'')]\<rparr>]"
    by (simp add: demo_request demo_mkdir) (simp add: demo_world_def)
  from t [where url = "''https://example.org/files/blob''" and w = empty_world]
  have b: "requested (snd (download_file demo_env ''m'' ''https://example.org/files/blob'' ''models''
      False False empty_world))
     = [\<lparr>full_url = ''https://example.org/files/blob'', redirected_hdrs = [],
         unredirected_hdrs = []\<rparr>]"
    by (simp add: empty_request empty_mkdir) (simp add: empty_world_def)
  from t [where url = "''notaurl''" and w = empty_world]
  have c: "download_file demo_env ''m'' ''notaurl'' ''models'' False False empty_world
     = (Inl ValueError, empty_world)"
    by (simp add: schemeless_request)
  from a b c show ?thesis by simp
qed










end
